theory Spec2Isabelle
  imports Main "HOL-Library.Word"
begin

section \<open>The goal ledger (StakeYourGoal.sol)\<close>

text \<open>
  A shallow embedding of the contract \<^verbatim>\<open>StakeYourGoal\<close>. Storage is a record; every
  \<^verbatim>\<open>require\<close> and every checked-arithmetic panic of Solidity 0.8 is a branch that returns
  \<open>Inl\<close> of an error (a revert: the caller keeps the state it had). Values of type
  \<^verbatim>\<open>uint256\<close> are natural numbers with the overflow check written out; the narrower
  types \<^verbatim>\<open>uint8\<close>, \<^verbatim>\<open>uint64\<close>, \<^verbatim>\<open>uint96\<close> and \<^verbatim>\<open>address\<close> are words.
\<close>

type_synonym address = "160 word"

record Goal =
  user :: address
  stakeAmount :: "96 word"
  deadline :: "64 word"
  createdAt :: "64 word"
  aiScore :: "64 word"
  status :: "8 word"
  category :: "8 word"
  description :: string
  proofURI :: string

record Vote =
  yesVotes :: nat
  noVotes :: nat
  hasVoted :: "address \<Rightarrow> bool"
  resolved :: bool
  passed :: bool

datatype event =
    GoalCreated nat address nat "64 word" "8 word" string
  | ProofSubmitted nat address string
  | AIScoredProof nat "64 word" string
  | VoteStarted nat nat
  | VoteCast nat address bool
  | VoteResolved nat bool nat nat
  | GoalResolved nat "8 word"
  | StakeWithdrawn address nat
  | GoalVerified nat address "64 word" bool
  | BadgeMintedForGoal nat address nat
  | CharityDonation nat address nat
  | OwnershipTransferred address address

datatype error =
    StakeTooLow
  | DeadlineMustBeInFuture
  | DescriptionRequired
  | InvalidCategory
  | GoalDoesNotExist
  | OnlyGoalCreatorCanSubmitProof
  | GoalNotActive
  | ProofSubmissionWindowClosed
  | OnlyAIVerifierCanCall
  | ScoreMustBe0To100
  | GoalNotInVotingPhase
  | NotEligibleForVoting
  | AlreadyVoted
  | VoteAlreadyResolved
  | OnlyGoalCreator
  | GoalMustBeCompleted
  | WithdrawalFailed
  | BasisPointsTooHigh
  | OwnableUnauthorizedAccount
  | OwnableInvalidOwner
  | ReentrancyGuardReentrantCall
  | ArithmeticPanic
  | NotPayable
  | InsufficientBalance
  | BadgeCallFailed

text \<open>
  The storage of the contract, with three pieces of its environment: \<open>self\<close> is
  \<^verbatim>\<open>address(this)\<close>, \<open>balances\<close> the ether balance of every account (the contract's own
  is \<open>balances s (self s)\<close>) and \<open>events\<close> the log, oldest first. \<open>owner\<close> is the state
  of \<^verbatim>\<open>Ownable\<close> and \<open>locked\<close> that of \<^verbatim>\<open>ReentrancyGuard\<close> (true while a
  \<^verbatim>\<open>nonReentrant\<close> function runs).
\<close>

record ledger =
  self :: address
  owner :: address
  locked :: bool
  goalCounter :: nat
  goals :: "nat \<Rightarrow> Goal"
  userGoals :: "address \<Rightarrow> nat list"
  votes :: "nat \<Rightarrow> Vote"
  badgeContract :: address
  badgeMinter :: address
  minimumStake :: nat
  votingPeriod :: nat
  aiVerifier :: address
  totalStaked :: nat
  charityAddress :: address
  charityBasisPoints :: nat
  userStreaks :: "address \<Rightarrow> 64 word"
  userHighestStreak :: "address \<Rightarrow> 64 word"
  balances :: "address \<Rightarrow> nat"
  events :: "event list"

definition uint256_max :: nat where
  "uint256_max = 2 ^ 256 - 1"

definition emit :: "event \<Rightarrow> ledger \<Rightarrow> ledger" where
  "emit e s = s\<lparr>events := events s @ [e]\<rparr>"

definition transfer :: "address \<Rightarrow> address \<Rightarrow> nat \<Rightarrow> ledger \<Rightarrow> ledger" where
  "transfer src dst amount s =
     (let b = (balances s)(src := balances s src - amount)
      in s\<lparr>balances := b(dst := b dst + amount)\<rparr>)"

text \<open>
  External calls. The contract makes three: \<^verbatim>\<open>call{value: amount}("")\<close> to the caller in
  \<^verbatim>\<open>withdrawStake\<close>, the same to the charity in \<^verbatim>\<open>_onGoalFailed\<close>, and
  \<^verbatim>\<open>try badgeMinter.mintBadge(...)\<close> in \<^verbatim>\<open>_onGoalCompleted\<close>. What the callee does is
  not code of the contract, so it is a parameter: for a payment, \<open>accepts\<close> says whether
  the callee returns normally; for the mint, a \<open>mint_answer\<close> says how the registry
  answers; and \<open>nest\<close> is what the callee does to the ledger while it has control (the
  calls it makes back into the contract). A value call also fails when the contract's
  balance is below the amount. A failed call leaves the state as it was before the call,
  as the EVM rolls the callee's frame back.
\<close>

definition call_value ::
  "bool \<Rightarrow> (ledger \<Rightarrow> ledger) \<Rightarrow> address \<Rightarrow> nat \<Rightarrow> ledger \<Rightarrow> bool \<times> ledger" where
  "call_value accepts nest target amount s =
     (if balances s (self s) < amount then (False, s)
      else if accepts then (True, nest (transfer (self s) target amount s))
      else (False, s))"

text \<open>
  The mint is a call through the interface \<^verbatim>\<open>IGoalBadgeNFT\<close>, inside \<^verbatim>\<open>try\<close>. It has
  three outcomes, and the registry's answer says which. The registry reverts: this is
  what \<^verbatim>\<open>catch\<close> catches, and the ledger goes on in the state it had. The registry
  returns a token id. Or there is no answer to decode: the address holds no code, or the
  data returned is not a \<^verbatim>\<open>uint256\<close>. The check for code, made before the call, and
  the decoding, made after it, belong to the caller, so \<^verbatim>\<open>try\<close> does not catch their
  failure: the caller reverts.
\<close>

datatype mint_answer = MintReverted | Minted nat | NoAnswer

definition call_mintBadge ::
  "mint_answer \<Rightarrow> (ledger \<Rightarrow> ledger) \<Rightarrow> ledger \<Rightarrow> error + nat option \<times> ledger" where
  "call_mintBadge answer nest s =
     (case answer of
        MintReverted \<Rightarrow> Inr (None, s)
      | Minted tokenId \<Rightarrow> Inr (Some tokenId, nest s)
      | NoAnswer \<Rightarrow> Inl BadgeCallFailed)"

subsection \<open>Internal helpers\<close>

definition set_status :: "nat \<Rightarrow> 8 word \<Rightarrow> ledger \<Rightarrow> ledger" where
  "set_status goalId st s = s\<lparr>goals := (goals s)(goalId := (goals s goalId)\<lparr>status := st\<rparr>)\<rparr>"

text \<open>
  \<^verbatim>\<open>_onGoalCompleted\<close>: the streak is a \<^verbatim>\<open>uint64\<close> incremented with overflow check;
  the mint is wrapped in \<^verbatim>\<open>try\<close>/\<^verbatim>\<open>catch\<close>, so a revert of the registry is not an
  error, while a registry address without code, or return data that does not decode,
  reverts the whole call.
\<close>

definition onGoalCompleted ::
  "mint_answer \<Rightarrow> (ledger \<Rightarrow> ledger) \<Rightarrow> nat \<Rightarrow> ledger \<Rightarrow> error + ledger" where
  "onGoalCompleted answer nest goalId s =
     (let u = user (goals s goalId) in
      if userStreaks s u = - 1 then Inl ArithmeticPanic
      else
        let s1 = s\<lparr>userStreaks := (userStreaks s)(u := userStreaks s u + 1)\<rparr>;
            currentStreak = userStreaks s1 u;
            s2 = (if currentStreak > userHighestStreak s1 u
                  then s1\<lparr>userHighestStreak := (userHighestStreak s1)(u := currentStreak)\<rparr>
                  else s1)
        in if badgeMinter s2 \<noteq> 0 then
             (case call_mintBadge answer nest s2 of
                Inl e \<Rightarrow> Inl e
              | Inr (Some tokenId, s3) \<Rightarrow>
                  Inr (emit (BadgeMintedForGoal goalId (user (goals s3 goalId)) tokenId) s3)
              | Inr (None, s3) \<Rightarrow> Inr s3)
           else Inr s2)"

text \<open>
  \<^verbatim>\<open>_onGoalFailed\<close>: the product \<^verbatim>\<open>uint256(goal.stakeAmount) * charityBasisPoints\<close> is
  checked; a failed send is not an error. The recorded \<open>stakeAmount\<close> is not written.
\<close>

definition onGoalFailed ::
  "bool \<Rightarrow> (ledger \<Rightarrow> ledger) \<Rightarrow> nat \<Rightarrow> ledger \<Rightarrow> error + ledger" where
  "onGoalFailed accepts nest goalId s =
     (let s1 = s\<lparr>userStreaks := (userStreaks s)(user (goals s goalId) := 0)\<rparr> in
      if charityAddress s1 \<noteq> 0 \<and> stakeAmount (goals s1 goalId) > 0 then
        if unat (stakeAmount (goals s1 goalId)) * charityBasisPoints s1 > uint256_max
        then Inl ArithmeticPanic
        else
          let charityAmount =
                unat (stakeAmount (goals s1 goalId)) * charityBasisPoints s1 div 10000
          in if charityAmount > 0 then
               (case call_value accepts nest (charityAddress s1) charityAmount s1 of
                  (True, s2) \<Rightarrow>
                    Inr (emit (CharityDonation goalId (charityAddress s2) charityAmount) s2)
                | (False, s2) \<Rightarrow> Inr s2)
             else Inr s1
      else Inr s1)"

subsection \<open>External functions\<close>

text \<open>
  Each function takes \<open>sender\<close> (\<^verbatim>\<open>msg.sender\<close>) and, where it reads them, \<open>val\<close>
  (\<^verbatim>\<open>msg.value\<close>, already credited to the contract) and \<open>now\<close>
  (\<^verbatim>\<open>block.timestamp\<close>). Modifiers are checked in the order the source lists them.
\<close>

definition createGoal ::
  "address \<Rightarrow> nat \<Rightarrow> nat \<Rightarrow> 64 word \<Rightarrow> 8 word \<Rightarrow> string \<Rightarrow> ledger \<Rightarrow> error + ledger" where
  "createGoal sender val now dl cat descr s =
     (if locked s then Inl ReentrancyGuardReentrantCall
      else if val < minimumStake s then Inl StakeTooLow
      else if \<not> now < unat dl then Inl DeadlineMustBeInFuture
      else if \<not> length descr > 0 then Inl DescriptionRequired
      else if \<not> cat \<le> 5 then Inl InvalidCategory
      else if goalCounter s \<ge> uint256_max then Inl ArithmeticPanic
      else if totalStaked s + val > uint256_max then Inl ArithmeticPanic
      else
        let goalId = goalCounter s;
            goal = (goals s goalId)\<lparr>user := sender, stakeAmount := of_nat val,
                     deadline := dl, createdAt := of_nat now, status := 0,
                     category := cat, description := descr\<rparr>
        in Inr (emit (GoalCreated goalId sender val dl cat descr)
                 (s\<lparr>goalCounter := goalId + 1,
                    goals := (goals s)(goalId := goal),
                    userGoals := (userGoals s)(sender := userGoals s sender @ [goalId]),
                    totalStaked := totalStaked s + val\<rparr>)))"

definition submitProof :: "address \<Rightarrow> nat \<Rightarrow> nat \<Rightarrow> string \<Rightarrow> ledger \<Rightarrow> error + ledger" where
  "submitProof sender now goalId uri s =
     (if \<not> goalId < goalCounter s then Inl GoalDoesNotExist
      else if locked s then Inl ReentrancyGuardReentrantCall
      else if user (goals s goalId) \<noteq> sender then Inl OnlyGoalCreatorCanSubmitProof
      else if status (goals s goalId) \<noteq> 0 then Inl GoalNotActive
      else if unat (deadline (goals s goalId)) + 86400 \<ge> 2 ^ 64 then Inl ArithmeticPanic
      else if \<not> now \<le> unat (deadline (goals s goalId)) + 86400
        then Inl ProofSubmissionWindowClosed
      else Inr (emit (ProofSubmitted goalId sender uri)
                 (s\<lparr>goals := (goals s)(goalId := (goals s goalId)\<lparr>proofURI := uri\<rparr>)\<rparr>)))"

definition setAIScore ::
  "bool \<Rightarrow> mint_answer \<Rightarrow> (ledger \<Rightarrow> ledger) \<Rightarrow> address \<Rightarrow> nat \<Rightarrow> nat \<Rightarrow> 64 word \<Rightarrow> ledger
     \<Rightarrow> error + ledger" where
  "setAIScore accepts answer nest sender now goalId score s =
     (if \<not> goalId < goalCounter s then Inl GoalDoesNotExist
      else if sender \<noteq> aiVerifier s then Inl OnlyAIVerifierCanCall
      else if \<not> score \<le> 100 then Inl ScoreMustBe0To100
      else if status (goals s goalId) \<noteq> 0 then Inl GoalNotActive
      else
        let s1 = s\<lparr>goals := (goals s)(goalId := (goals s goalId)\<lparr>aiScore := score\<rparr>)\<rparr>;
            pass = (score \<ge> 75);
            r = (if pass then
                   (case onGoalCompleted answer nest goalId (set_status goalId 1 s1) of
                      Inl e \<Rightarrow> Inl e
                    | Inr s2 \<Rightarrow> Inr (emit (GoalResolved goalId 1) s2))
                 else if score < 40 then
                   (case onGoalFailed accepts nest goalId (set_status goalId 2 s1) of
                      Inl e \<Rightarrow> Inl e
                    | Inr s2 \<Rightarrow> Inr (emit (GoalResolved goalId 2) s2))
                 else if now + votingPeriod s1 > uint256_max then Inl ArithmeticPanic
                 else Inr (emit (VoteStarted goalId (now + votingPeriod s1)) s1))
        in case r of
             Inl e \<Rightarrow> Inl e
           | Inr s3 \<Rightarrow>
               Inr (emit (GoalVerified goalId sender score pass)
                     (emit (AIScoredProof goalId score ''AI verification complete'') s3)))"

definition verifyGoal ::
  "bool \<Rightarrow> mint_answer \<Rightarrow> (ledger \<Rightarrow> ledger) \<Rightarrow> address \<Rightarrow> nat \<Rightarrow> bool \<Rightarrow> ledger \<Rightarrow> error + ledger" where
  "verifyGoal accepts answer nest sender goalId result s =
     (if \<not> goalId < goalCounter s then Inl GoalDoesNotExist
      else if sender \<noteq> aiVerifier s then Inl OnlyAIVerifierCanCall
      else if status (goals s goalId) \<noteq> 0 then Inl GoalNotActive
      else
        let score = (if result then 100 else 0);
            s1 = s\<lparr>goals := (goals s)(goalId := (goals s goalId)\<lparr>aiScore := score\<rparr>)\<rparr>;
            r = (if result then
                   (case onGoalCompleted answer nest goalId (set_status goalId 1 s1) of
                      Inl e \<Rightarrow> Inl e
                    | Inr s2 \<Rightarrow> Inr (emit (GoalResolved goalId 1) s2))
                 else
                   (case onGoalFailed accepts nest goalId (set_status goalId 2 s1) of
                      Inl e \<Rightarrow> Inl e
                    | Inr s2 \<Rightarrow> Inr (emit (GoalResolved goalId 2) s2)))
        in case r of
             Inl e \<Rightarrow> Inl e
           | Inr s3 \<Rightarrow>
               Inr (emit (GoalVerified goalId sender score result)
                     (emit (AIScoredProof goalId score
                        (if result then ''Goal verified by AI'' else ''Goal rejected by AI'')) s3)))"

definition vote :: "address \<Rightarrow> nat \<Rightarrow> bool \<Rightarrow> ledger \<Rightarrow> error + ledger" where
  "vote sender goalId support s =
     (if \<not> goalId < goalCounter s then Inl GoalDoesNotExist
      else if locked s then Inl ReentrancyGuardReentrantCall
      else if status (goals s goalId) \<noteq> 0 then Inl GoalNotInVotingPhase
      else if \<not> (aiScore (goals s goalId) \<ge> 40 \<and> aiScore (goals s goalId) < 75)
        then Inl NotEligibleForVoting
      else if hasVoted (votes s goalId) sender then Inl AlreadyVoted
      else
        let v = (votes s goalId)\<lparr>hasVoted := (hasVoted (votes s goalId))(sender := True)\<rparr> in
        if support then
          if yesVotes v \<ge> uint256_max then Inl ArithmeticPanic
          else Inr (emit (VoteCast goalId sender support)
                     (s\<lparr>votes := (votes s)(goalId := v\<lparr>yesVotes := yesVotes v + 1\<rparr>)\<rparr>))
        else
          if noVotes v \<ge> uint256_max then Inl ArithmeticPanic
          else Inr (emit (VoteCast goalId sender support)
                     (s\<lparr>votes := (votes s)(goalId := v\<lparr>noVotes := noVotes v + 1\<rparr>)\<rparr>)))"

definition resolveVote ::
  "bool \<Rightarrow> mint_answer \<Rightarrow> (ledger \<Rightarrow> ledger) \<Rightarrow> nat \<Rightarrow> ledger \<Rightarrow> error + ledger" where
  "resolveVote accepts answer nest goalId s =
     (if \<not> goalId < goalCounter s then Inl GoalDoesNotExist
      else if locked s then Inl ReentrancyGuardReentrantCall
      else
        let s0 = s\<lparr>locked := True\<rparr> in
        if resolved (votes s0 goalId) then Inl VoteAlreadyResolved
        else if status (goals s0 goalId) \<noteq> 0 then Inl GoalNotActive
        else
          let pass = (yesVotes (votes s0 goalId) > noVotes (votes s0 goalId));
              s1 = s0\<lparr>votes := (votes s0)(goalId :=
                          (votes s0 goalId)\<lparr>resolved := True, passed := pass\<rparr>)\<rparr>;
              r = (if pass then onGoalCompleted answer nest goalId (set_status goalId 1 s1)
                   else onGoalFailed accepts nest goalId (set_status goalId 2 s1))
          in case r of
               Inl e \<Rightarrow> Inl e
             | Inr s2 \<Rightarrow>
                 Inr ((emit (GoalResolved goalId (status (goals s2 goalId)))
                        (emit (VoteResolved goalId pass (yesVotes (votes s2 goalId))
                                 (noVotes (votes s2 goalId))) s2))\<lparr>locked := False\<rparr>))"

definition withdrawStake ::
  "bool \<Rightarrow> (ledger \<Rightarrow> ledger) \<Rightarrow> address \<Rightarrow> nat \<Rightarrow> ledger \<Rightarrow> error + ledger" where
  "withdrawStake accepts nest sender goalId s =
     (if \<not> goalId < goalCounter s then Inl GoalDoesNotExist
      else if locked s then Inl ReentrancyGuardReentrantCall
      else
        let s0 = s\<lparr>locked := True\<rparr> in
        if user (goals s0 goalId) \<noteq> sender then Inl OnlyGoalCreator
        else if status (goals s0 goalId) \<noteq> 1 then Inl GoalMustBeCompleted
        else
          let amount = unat (stakeAmount (goals s0 goalId));
              s1 = s0\<lparr>goals := (goals s0)(goalId := (goals s0 goalId)\<lparr>stakeAmount := 0\<rparr>)\<rparr>
          in if totalStaked s1 < amount then Inl ArithmeticPanic
             else
               let s2 = s1\<lparr>totalStaked := totalStaked s1 - amount\<rparr> in
               case call_value accepts nest sender amount s2 of
                 (True, s3) \<Rightarrow> Inr ((emit (StakeWithdrawn sender amount) s3)\<lparr>locked := False\<rparr>)
               | (False, s3) \<Rightarrow> Inl WithdrawalFailed)"

subsection \<open>Administrative functions\<close>

definition setAIVerifier :: "address \<Rightarrow> address \<Rightarrow> ledger \<Rightarrow> error + ledger" where
  "setAIVerifier sender verifier s =
     (if sender \<noteq> owner s then Inl OwnableUnauthorizedAccount
      else Inr (s\<lparr>aiVerifier := verifier\<rparr>))"

definition setMinimumStake :: "address \<Rightarrow> nat \<Rightarrow> ledger \<Rightarrow> error + ledger" where
  "setMinimumStake sender minStake s =
     (if sender \<noteq> owner s then Inl OwnableUnauthorizedAccount
      else Inr (s\<lparr>minimumStake := minStake\<rparr>))"

definition setVotingPeriod :: "address \<Rightarrow> nat \<Rightarrow> ledger \<Rightarrow> error + ledger" where
  "setVotingPeriod sender period s =
     (if sender \<noteq> owner s then Inl OwnableUnauthorizedAccount
      else Inr (s\<lparr>votingPeriod := period\<rparr>))"

definition setCharityAddress :: "address \<Rightarrow> address \<Rightarrow> ledger \<Rightarrow> error + ledger" where
  "setCharityAddress sender charity s =
     (if sender \<noteq> owner s then Inl OwnableUnauthorizedAccount
      else Inr (s\<lparr>charityAddress := charity\<rparr>))"

definition setCharityBasisPoints :: "address \<Rightarrow> nat \<Rightarrow> ledger \<Rightarrow> error + ledger" where
  "setCharityBasisPoints sender bps s =
     (if sender \<noteq> owner s then Inl OwnableUnauthorizedAccount
      else if \<not> bps \<le> 10000 then Inl BasisPointsTooHigh
      else Inr (s\<lparr>charityBasisPoints := bps\<rparr>))"

definition setBadgeContract :: "address \<Rightarrow> address \<Rightarrow> ledger \<Rightarrow> error + ledger" where
  "setBadgeContract sender badge s =
     (if sender \<noteq> owner s then Inl OwnableUnauthorizedAccount
      else Inr (s\<lparr>badgeContract := badge, badgeMinter := badge\<rparr>))"

text \<open>The two public functions the contract inherits from \<^verbatim>\<open>Ownable\<close>.\<close>

definition transferOwnership :: "address \<Rightarrow> address \<Rightarrow> ledger \<Rightarrow> error + ledger" where
  "transferOwnership sender newOwner s =
     (if sender \<noteq> owner s then Inl OwnableUnauthorizedAccount
      else if newOwner = 0 then Inl OwnableInvalidOwner
      else Inr (emit (OwnershipTransferred (owner s) newOwner) (s\<lparr>owner := newOwner\<rparr>)))"

definition renounceOwnership :: "address \<Rightarrow> ledger \<Rightarrow> error + ledger" where
  "renounceOwnership sender s =
     (if sender \<noteq> owner s then Inl OwnableUnauthorizedAccount
      else Inr (emit (OwnershipTransferred (owner s) 0) (s\<lparr>owner := 0\<rparr>)))"

subsection \<open>Calls and transactions\<close>

datatype op =
    CreateGoal "64 word" "8 word" string
  | SubmitProof nat string
  | SetAIScore nat "64 word"
  | VerifyGoal nat bool
  | CastVote nat bool
  | ResolveVote nat
  | WithdrawStake nat
  | SetAIVerifier address
  | SetMinimumStake nat
  | SetVotingPeriod nat
  | SetCharityAddress address
  | SetCharityBasisPoints nat
  | SetBadgeContract address
  | TransferOwnership address
  | RenounceOwnership
  | Receive

text \<open>
  A call to the contract: who calls, with how much ether, at what time, which function,
  and how the one external call that the function may make turns out: whether the callee
  of a payment accepts it, how the registry answers a mint, and the calls the callee
  makes back into the contract while it has control (each of them may revert; the callee
  goes on).
\<close>

datatype call = Call address nat nat op bool mint_answer "call list"

fun payable :: "op \<Rightarrow> bool" where
  "payable (CreateGoal dl cat descr) = True"
| "payable Receive = True"
| "payable other = False"

fun dispatch ::
  "bool \<Rightarrow> mint_answer \<Rightarrow> (ledger \<Rightarrow> ledger) \<Rightarrow> address \<Rightarrow> nat \<Rightarrow> nat \<Rightarrow> op \<Rightarrow> ledger
     \<Rightarrow> error + ledger" where
  "dispatch a k nest sender val now (CreateGoal dl cat descr) s =
     createGoal sender val now dl cat descr s"
| "dispatch a k nest sender val now (SubmitProof goalId uri) s =
     submitProof sender now goalId uri s"
| "dispatch a k nest sender val now (SetAIScore goalId score) s =
     setAIScore a k nest sender now goalId score s"
| "dispatch a k nest sender val now (VerifyGoal goalId result) s =
     verifyGoal a k nest sender goalId result s"
| "dispatch a k nest sender val now (CastVote goalId support) s =
     vote sender goalId support s"
| "dispatch a k nest sender val now (ResolveVote goalId) s =
     resolveVote a k nest goalId s"
| "dispatch a k nest sender val now (WithdrawStake goalId) s =
     withdrawStake a nest sender goalId s"
| "dispatch a k nest sender val now (SetAIVerifier verifier) s = setAIVerifier sender verifier s"
| "dispatch a k nest sender val now (SetMinimumStake m) s = setMinimumStake sender m s"
| "dispatch a k nest sender val now (SetVotingPeriod p) s = setVotingPeriod sender p s"
| "dispatch a k nest sender val now (SetCharityAddress c) s = setCharityAddress sender c s"
| "dispatch a k nest sender val now (SetCharityBasisPoints b) s =
     setCharityBasisPoints sender b s"
| "dispatch a k nest sender val now (SetBadgeContract b) s = setBadgeContract sender b s"
| "dispatch a k nest sender val now (TransferOwnership n) s = transferOwnership sender n s"
| "dispatch a k nest sender val now RenounceOwnership s = renounceOwnership sender s"
| "dispatch a k nest sender val now Receive s = Inr s"

definition settle :: "error + ledger \<Rightarrow> ledger \<Rightarrow> ledger" where
  "settle r s = (case r of Inl e \<Rightarrow> s | Inr s' \<Rightarrow> s')"

text \<open>
  What a callee does while it has control: it makes its calls one after the other, and a
  call that reverts changes nothing.
\<close>

definition reenter :: "(call \<Rightarrow> ledger \<Rightarrow> error + ledger) \<Rightarrow> call list \<Rightarrow> ledger \<Rightarrow> ledger" where
  "reenter ex cs = fold (\<lambda>c t. settle (ex c t) t) cs"

lemma reenter_cong [fundef_cong]:
  "cs = cs' \<Longrightarrow> (\<And>c t. c \<in> set cs' \<Longrightarrow> ex c t = ex' c t) \<Longrightarrow> reenter ex cs = reenter ex' cs'"
  unfolding reenter_def by (intro ext fold_cong) auto

text \<open>
  A call first moves \<^verbatim>\<open>msg.value\<close> from the caller to the contract; a function that is
  not \<^verbatim>\<open>payable\<close> reverts when it is sent ether.
\<close>

fun exec :: "call \<Rightarrow> ledger \<Rightarrow> error + ledger" where
  "exec (Call sender val now f a k nested) s =
     (if balances s sender < val then Inl InsufficientBalance
      else if val > 0 \<and> \<not> payable f then Inl NotPayable
      else dispatch a k (reenter exec nested) sender val now f
             (transfer sender (self s) val s))"

definition transact :: "call \<Rightarrow> ledger \<Rightarrow> ledger" where
  "transact c s = settle (exec c s) s"

definition run :: "call list \<Rightarrow> ledger \<Rightarrow> ledger" where
  "run cs s = fold transact cs s"

text \<open>The state the constructor leaves, deployed at \<open>this\<close> by \<open>deployer\<close>.\<close>

definition empty_goal :: Goal where
  "empty_goal = \<lparr>user = 0, stakeAmount = 0, deadline = 0, createdAt = 0, aiScore = 0,
     status = 0, category = 0, description = [], proofURI = []\<rparr>"

definition empty_vote :: Vote where
  "empty_vote = \<lparr>yesVotes = 0, noVotes = 0, hasVoted = (\<lambda>a. False), resolved = False,
     passed = False\<rparr>"

definition constructor :: "address \<Rightarrow> address \<Rightarrow> address \<Rightarrow> (address \<Rightarrow> nat) \<Rightarrow> ledger" where
  "constructor this deployer badge bal =
     \<lparr>self = this, owner = deployer, locked = False, goalCounter = 0,
      goals = (\<lambda>i. empty_goal), userGoals = (\<lambda>a. []), votes = (\<lambda>i. empty_vote),
      badgeContract = badge, badgeMinter = badge,
      minimumStake = 10000000000000000, votingPeriod = 604800,
      aiVerifier = deployer, totalStaked = 0,
      charityAddress = 0, charityBasisPoints = 5000,
      userStreaks = (\<lambda>a. 0), userHighestStreak = (\<lambda>a. 0),
      balances = bal, events = [OwnershipTransferred 0 deployer]\<rparr>"

subsection \<open>What a goal's record can do over its lifetime\<close>

text \<open>
  \<open>lifecycle s s'\<close> relates a state to a later one: the contract keeps its address, goals
  are only added, and for every goal that exists in \<open>s\<close> the owner stays, a status other
  than Active stays together with the vote and the score, and the recorded stake either
  stays or is zero on a Completed goal.
\<close>

definition lifecycle :: "ledger \<Rightarrow> ledger \<Rightarrow> bool" where
  "lifecycle s s' \<longleftrightarrow>
     self s' = self s \<and> goalCounter s \<le> goalCounter s' \<and>
     (\<forall>g<goalCounter s.
        user (goals s' g) = user (goals s g) \<and>
        (status (goals s g) \<noteq> 0 \<longrightarrow>
           status (goals s' g) = status (goals s g) \<and> votes s' g = votes s g \<and>
           aiScore (goals s' g) = aiScore (goals s g)) \<and>
        (stakeAmount (goals s' g) = stakeAmount (goals s g) \<or>
         stakeAmount (goals s' g) = 0 \<and> status (goals s' g) = 1))"

subsection \<open>A deployment to run the functions on\<close>

text \<open>
  The contract at address 100, deployed by account 1 (owner and verifier), badge contract
  at 9, every account holding one ether. Account 2 stakes 0.1 ether on a goal.
\<close>

definition demo_start :: ledger where
  "demo_start = constructor 100 1 9 (\<lambda>a. 1000000000000000000)"

definition demo_create :: call where
  "demo_create = Call 2 100000000000000000 1000 (CreateGoal 5000 0 ''Learn Solidity'') True (Minted 0) []"

definition demo_created :: ledger where
  "demo_created = transact demo_create demo_start"

definition demo_score :: call where
  "demo_score = Call 1 0 2000 (SetAIScore 0 90) True (Minted 0) []"

definition demo_completed :: ledger where
  "demo_completed = transact demo_score demo_created"

definition demo_long_vote :: ledger where
  "demo_long_vote = transact (Call 1 0 1500 (SetVotingPeriod uint256_max) True (Minted 0) []) demo_created"

definition demo_voted :: ledger where
  "demo_voted =
     run [Call 1 0 2000 (SetAIScore 0 55) True (Minted 0) [],
          Call 16 0 2100 (CastVote 0 True) True (Minted 0) [],
          Call 17 0 2200 (CastVote 0 True) True (Minted 0) [],
          Call 18 0 2300 (CastVote 0 False) True (Minted 0) []] demo_created"

text \<open>
  Two facts that hold in every state the contract can reach: the beneficiary share is at
  most 10000 basis points, and no vote has been touched under an id that is not yet a goal.
\<close>

definition well_configured :: "ledger \<Rightarrow> bool" where
  "well_configured s \<longleftrightarrow>
     charityBasisPoints s \<le> 10000 \<and>
     (\<forall>g\<ge>goalCounter s. \<not> resolved (votes s g) \<and> yesVotes (votes s g) = 0 \<and>
        noVotes (votes s g) = 0)"



definition demo_withdraw :: call where
  "demo_withdraw = Call 2 0 3000 (WithdrawStake 0) True (Minted 0) []"

definition demo_withdrawn :: ledger where
  "demo_withdrawn = transact demo_withdraw demo_completed"

section \<open>The badge registry (GoalBadgeNFT.sol)\<close>

text \<open>
  \<^verbatim>\<open>GoalBadgeNFT\<close> extends the ERC-721 implementation of the OpenZeppelin library
  (version 5, as \<^verbatim>\<open>Ownable(msg.sender)\<close> and the \<^verbatim>\<open>_update\<close> hook show), which the
  repository imports and does not contain. The functions of \<^verbatim>\<open>GoalBadgeNFT\<close> itself
  (\<open>update\<close>, \<open>mintBadge\<close>, \<open>burn\<close>, the setters) are translated from the source.
\<close>

record BadgeMetadata =
  badge_goalId :: nat
  badge_category :: "8 word"
  completedAt :: "64 word"
  badge_streak :: "64 word"

datatype nft_event =
    Transfer address address nat
  | Approval address address nat
  | ApprovalForAll address address bool
  | BadgeMinted address nat nat "8 word"
  | BadgeBurned address nat
  | BadgeOwnershipTransferred address address

datatype nft_error =
    OnlyStakeYourGoalContract
  | NotBadgeOwner
  | SoulboundNoTransfer
  | ERC721InvalidReceiver
  | ERC721InvalidSender
  | ERC721NonexistentToken
  | ERC721IncorrectOwner
  | ERC721InsufficientApproval
  | ERC721InvalidApprover
  | ERC721InvalidOperator
  | BadgeUnauthorizedAccount
  | BadgeInvalidOwner
  | BadgeArithmeticPanic

record badges =
  tokenCounter :: nat
  baseURI :: string
  stakeContract :: address
  registry_owner :: address
  owners :: "nat \<Rightarrow> address"
  holdings :: "address \<Rightarrow> nat"
  tokenApprovals :: "nat \<Rightarrow> address"
  operatorApprovals :: "address \<Rightarrow> address \<Rightarrow> bool"
  badgeMetadata :: "nat \<Rightarrow> BadgeMetadata"
  userBadgeCount :: "address \<Rightarrow> nat"
  categoryBadgeCount :: "address \<Rightarrow> 8 word \<Rightarrow> nat"
  badge_events :: "nft_event list"

definition log :: "nft_event \<Rightarrow> badges \<Rightarrow> badges" where
  "log e s = s\<lparr>badge_events := badge_events s @ [e]\<rparr>"

subsection \<open>The inherited ERC-721 functions\<close>

text \<open>
  Modelled from the spec: the ERC-721 base contract that \<^verbatim>\<open>GoalBadgeNFT\<close> inherits
  (\<open>ownerOf\<close>, \<open>isAuthorized\<close>, \<open>super_update\<close> here; \<open>mint\<close>, \<open>safeMint\<close>,
  \<open>burn_token\<close>, \<open>approve\<close>, \<open>setApprovalForAll\<close>, \<open>transferFrom\<close> and
  \<open>safeTransferFrom\<close> below) is not in the repository. It follows the library's
  published behaviour, which is what the spec's badge registry relies on: a token exists
  when its owner is not the zero address, every change of ownership goes through the
  \<^verbatim>\<open>_update\<close> hook, a mint needs a token without owner and a burn a token with one.
\<close>

definition ownerOf :: "nat \<Rightarrow> badges \<Rightarrow> nft_error + address" where
  "ownerOf tokenId s =
     (if owners s tokenId = 0 then Inl ERC721NonexistentToken else Inr (owners s tokenId))"

definition isAuthorized :: "address \<Rightarrow> address \<Rightarrow> nat \<Rightarrow> badges \<Rightarrow> bool" where
  "isAuthorized holder spender tokenId s \<longleftrightarrow>
     spender \<noteq> 0 \<and>
     (holder = spender \<or> operatorApprovals s holder spender \<or> tokenApprovals s tokenId = spender)"

text \<open>The library's \<^verbatim>\<open>_update\<close>; the two balance updates are \<^verbatim>\<open>unchecked\<close>.\<close>

definition super_update :: "address \<Rightarrow> nat \<Rightarrow> address \<Rightarrow> badges \<Rightarrow> nft_error + (address \<times> badges)" where
  "super_update to tokenId auth s =
     (let from = owners s tokenId in
      if auth \<noteq> 0 \<and> \<not> isAuthorized from auth tokenId s then
        (if from = 0 then Inl ERC721NonexistentToken else Inl ERC721InsufficientApproval)
      else
        let s1 = (if from \<noteq> 0
                  then s\<lparr>tokenApprovals := (tokenApprovals s)(tokenId := 0),
                         holdings := (holdings s)(from := (holdings s from + 2 ^ 256 - 1) mod 2 ^ 256)\<rparr>
                  else s);
            s2 = (if to \<noteq> 0
                  then s1\<lparr>holdings := (holdings s1)(to := (holdings s1 to + 1) mod 2 ^ 256)\<rparr>
                  else s1)
        in Inr (from, log (Transfer from to tokenId) (s2\<lparr>owners := (owners s2)(tokenId := to)\<rparr>)))"

subsection \<open>The soulbound hook\<close>

text \<open>The override of \<^verbatim>\<open>_update\<close> in \<^verbatim>\<open>GoalBadgeNFT\<close>.\<close>

definition update :: "address \<Rightarrow> nat \<Rightarrow> address \<Rightarrow> badges \<Rightarrow> nft_error + (address \<times> badges)" where
  "update to tokenId auth s =
     (let from = owners s tokenId in
      if \<not> (from = 0 \<or> to = 0) then Inl SoulboundNoTransfer
      else super_update to tokenId auth s)"

subsection \<open>Library functions that go through the hook\<close>

definition mint :: "address \<Rightarrow> nat \<Rightarrow> badges \<Rightarrow> nft_error + badges" where
  "mint to tokenId s =
     (if to = 0 then Inl ERC721InvalidReceiver
      else case update to tokenId 0 s of
             Inl e \<Rightarrow> Inl e
           | Inr (previousOwner, s1) \<Rightarrow>
               if previousOwner \<noteq> 0 then Inl ERC721InvalidSender else Inr s1)"

text \<open>
  \<^verbatim>\<open>_safeMint\<close> and \<^verbatim>\<open>safeTransferFrom\<close> end with the acceptance check on the
  receiver: \<open>accepts\<close> says whether the receiver's hook accepts the token (a receiver
  without code always does), \<open>nest\<close> what the hook does to the registry meanwhile.
\<close>

definition safeMint :: "bool \<Rightarrow> (badges \<Rightarrow> badges) \<Rightarrow> address \<Rightarrow> nat \<Rightarrow> badges \<Rightarrow> nft_error + badges" where
  "safeMint accepts nest to tokenId s =
     (case mint to tokenId s of
        Inl e \<Rightarrow> Inl e
      | Inr s1 \<Rightarrow> if accepts then Inr (nest s1) else Inl ERC721InvalidReceiver)"

definition burn_token :: "nat \<Rightarrow> badges \<Rightarrow> nft_error + badges" where
  "burn_token tokenId s =
     (case update 0 tokenId 0 s of
        Inl e \<Rightarrow> Inl e
      | Inr (previousOwner, s1) \<Rightarrow>
          if previousOwner = 0 then Inl ERC721NonexistentToken else Inr s1)"

definition approve :: "address \<Rightarrow> address \<Rightarrow> nat \<Rightarrow> badges \<Rightarrow> nft_error + badges" where
  "approve sender to tokenId s =
     (if owners s tokenId = 0 then Inl ERC721NonexistentToken
      else if sender \<noteq> 0 \<and> owners s tokenId \<noteq> sender \<and>
              \<not> operatorApprovals s (owners s tokenId) sender
        then Inl ERC721InvalidApprover
      else Inr ((log (Approval (owners s tokenId) to tokenId) s)
                 \<lparr>tokenApprovals := (tokenApprovals s)(tokenId := to)\<rparr>))"

definition setApprovalForAll :: "address \<Rightarrow> address \<Rightarrow> bool \<Rightarrow> badges \<Rightarrow> nft_error + badges" where
  "setApprovalForAll sender operator approved s =
     (if operator = 0 then Inl ERC721InvalidOperator
      else Inr (log (ApprovalForAll sender operator approved)
                 (s\<lparr>operatorApprovals := (operatorApprovals s)
                      (sender := (operatorApprovals s sender)(operator := approved))\<rparr>)))"

definition transferFrom :: "address \<Rightarrow> address \<Rightarrow> address \<Rightarrow> nat \<Rightarrow> badges \<Rightarrow> nft_error + badges" where
  "transferFrom sender from to tokenId s =
     (if to = 0 then Inl ERC721InvalidReceiver
      else case update to tokenId sender s of
             Inl e \<Rightarrow> Inl e
           | Inr (previousOwner, s1) \<Rightarrow>
               if previousOwner \<noteq> from then Inl ERC721IncorrectOwner else Inr s1)"

definition safeTransferFrom ::
  "bool \<Rightarrow> (badges \<Rightarrow> badges) \<Rightarrow> address \<Rightarrow> address \<Rightarrow> address \<Rightarrow> nat \<Rightarrow> badges
     \<Rightarrow> nft_error + badges" where
  "safeTransferFrom accepts nest sender from to tokenId s =
     (case transferFrom sender from to tokenId s of
        Inl e \<Rightarrow> Inl e
      | Inr s1 \<Rightarrow> if accepts then Inr (nest s1) else Inl ERC721InvalidReceiver)"

subsection \<open>The functions of the registry\<close>

text \<open>\<^verbatim>\<open>mintBadge\<close> returns the new token id, which is the counter before the call.\<close>

definition mintBadge ::
  "bool \<Rightarrow> (badges \<Rightarrow> badges) \<Rightarrow> address \<Rightarrow> nat \<Rightarrow> address \<Rightarrow> nat \<Rightarrow> 8 word \<Rightarrow> 64 word \<Rightarrow> badges
     \<Rightarrow> nft_error + badges" where
  "mintBadge accepts nest sender now usr goalId cat streak s =
     (if sender \<noteq> stakeContract s then Inl OnlyStakeYourGoalContract
      else if tokenCounter s \<ge> uint256_max then Inl BadgeArithmeticPanic
      else
        let tokenId = tokenCounter s in
        case safeMint accepts nest usr tokenId (s\<lparr>tokenCounter := tokenId + 1\<rparr>) of
          Inl e \<Rightarrow> Inl e
        | Inr s1 \<Rightarrow>
            let s2 = s1\<lparr>badgeMetadata := (badgeMetadata s1)(tokenId :=
                        \<lparr>badge_goalId = goalId, badge_category = cat,
                         completedAt = of_nat now, badge_streak = streak\<rparr>)\<rparr>
            in if userBadgeCount s2 usr \<ge> uint256_max then Inl BadgeArithmeticPanic
               else if categoryBadgeCount s2 usr cat \<ge> uint256_max then Inl BadgeArithmeticPanic
               else Inr (log (BadgeMinted usr tokenId goalId cat)
                      (s2\<lparr>userBadgeCount := (userBadgeCount s2)(usr := userBadgeCount s2 usr + 1),
                          categoryBadgeCount := (categoryBadgeCount s2)
                            (usr := (categoryBadgeCount s2 usr)
                               (cat := categoryBadgeCount s2 usr cat + 1))\<rparr>)))"

definition burn :: "address \<Rightarrow> nat \<Rightarrow> badges \<Rightarrow> nft_error + badges" where
  "burn sender tokenId s =
     (case ownerOf tokenId s of
        Inl e \<Rightarrow> Inl e
      | Inr holder \<Rightarrow>
          if holder \<noteq> sender then Inl NotBadgeOwner
          else
            let cat = badge_category (badgeMetadata s tokenId) in
            if userBadgeCount s sender = 0 then Inl BadgeArithmeticPanic
            else if categoryBadgeCount s sender cat = 0 then Inl BadgeArithmeticPanic
            else
              case burn_token tokenId
                     (s\<lparr>userBadgeCount := (userBadgeCount s)(sender := userBadgeCount s sender - 1),
                        categoryBadgeCount := (categoryBadgeCount s)
                          (sender := (categoryBadgeCount s sender)
                             (cat := categoryBadgeCount s sender cat - 1))\<rparr>) of
                Inl e \<Rightarrow> Inl e
              | Inr s1 \<Rightarrow> Inr (log (BadgeBurned sender tokenId) s1))"

definition setBaseURI :: "address \<Rightarrow> string \<Rightarrow> badges \<Rightarrow> nft_error + badges" where
  "setBaseURI sender uri s =
     (if sender \<noteq> registry_owner s then Inl BadgeUnauthorizedAccount
      else Inr (s\<lparr>baseURI := uri\<rparr>))"

definition setStakeContract :: "address \<Rightarrow> address \<Rightarrow> badges \<Rightarrow> nft_error + badges" where
  "setStakeContract sender c s =
     (if sender \<noteq> registry_owner s then Inl BadgeUnauthorizedAccount
      else Inr (s\<lparr>stakeContract := c\<rparr>))"

definition badge_transferOwnership :: "address \<Rightarrow> address \<Rightarrow> badges \<Rightarrow> nft_error + badges" where
  "badge_transferOwnership sender newOwner s =
     (if sender \<noteq> registry_owner s then Inl BadgeUnauthorizedAccount
      else if newOwner = 0 then Inl BadgeInvalidOwner
      else Inr (log (BadgeOwnershipTransferred (registry_owner s) newOwner)
                 (s\<lparr>registry_owner := newOwner\<rparr>)))"

definition badge_renounceOwnership :: "address \<Rightarrow> badges \<Rightarrow> nft_error + badges" where
  "badge_renounceOwnership sender s =
     (if sender \<noteq> registry_owner s then Inl BadgeUnauthorizedAccount
      else Inr (log (BadgeOwnershipTransferred (registry_owner s) 0) (s\<lparr>registry_owner := 0\<rparr>)))"

subsection \<open>Calls to the registry\<close>

datatype nft_op =
    MintBadge address nat "8 word" "64 word"
  | Burn nat
  | TransferFrom address address nat
  | SafeTransferFrom address address nat
  | Approve address nat
  | SetApprovalForAll address bool
  | SetBaseURI string
  | SetStakeContract address
  | BadgeTransferOwnership address
  | BadgeRenounceOwnership

text \<open>
  A call: the caller, the time, the function, whether the receiver hook accepts, and the
  calls that the hook makes back into the registry.
\<close>

datatype nft_call = NftCall address nat nft_op bool "nft_call list"

fun nft_dispatch ::
  "bool \<Rightarrow> (badges \<Rightarrow> badges) \<Rightarrow> address \<Rightarrow> nat \<Rightarrow> nft_op \<Rightarrow> badges \<Rightarrow> nft_error + badges" where
  "nft_dispatch a nest sender now (MintBadge usr goalId cat streak) s =
     mintBadge a nest sender now usr goalId cat streak s"
| "nft_dispatch a nest sender now (Burn tokenId) s = burn sender tokenId s"
| "nft_dispatch a nest sender now (TransferFrom from to tokenId) s =
     transferFrom sender from to tokenId s"
| "nft_dispatch a nest sender now (SafeTransferFrom from to tokenId) s =
     safeTransferFrom a nest sender from to tokenId s"
| "nft_dispatch a nest sender now (Approve to tokenId) s = approve sender to tokenId s"
| "nft_dispatch a nest sender now (SetApprovalForAll operator approved) s =
     setApprovalForAll sender operator approved s"
| "nft_dispatch a nest sender now (SetBaseURI uri) s = setBaseURI sender uri s"
| "nft_dispatch a nest sender now (SetStakeContract c) s = setStakeContract sender c s"
| "nft_dispatch a nest sender now (BadgeTransferOwnership n) s =
     badge_transferOwnership sender n s"
| "nft_dispatch a nest sender now BadgeRenounceOwnership s = badge_renounceOwnership sender s"

definition nft_settle :: "nft_error + badges \<Rightarrow> badges \<Rightarrow> badges" where
  "nft_settle r s = (case r of Inl e \<Rightarrow> s | Inr s' \<Rightarrow> s')"

definition nft_reenter ::
  "(nft_call \<Rightarrow> badges \<Rightarrow> nft_error + badges) \<Rightarrow> nft_call list \<Rightarrow> badges \<Rightarrow> badges" where
  "nft_reenter ex cs = fold (\<lambda>c t. nft_settle (ex c t) t) cs"

lemma nft_reenter_cong [fundef_cong]:
  "cs = cs' \<Longrightarrow> (\<And>c t. c \<in> set cs' \<Longrightarrow> ex c t = ex' c t) \<Longrightarrow>
   nft_reenter ex cs = nft_reenter ex' cs'"
  unfolding nft_reenter_def by (intro ext fold_cong) auto

fun nft_exec :: "nft_call \<Rightarrow> badges \<Rightarrow> nft_error + badges" where
  "nft_exec (NftCall sender now f a nested) s =
     nft_dispatch a (nft_reenter nft_exec nested) sender now f s"

definition nft_run :: "nft_call list \<Rightarrow> badges \<Rightarrow> badges" where
  "nft_run cs s = fold (\<lambda>c t. nft_settle (nft_exec c t) t) cs s"

text \<open>The state the constructor leaves.\<close>

definition badge_constructor :: "address \<Rightarrow> address \<Rightarrow> badges" where
  "badge_constructor deployer stake =
     \<lparr>tokenCounter = 0, baseURI = ''https://ipfs.io/ipfs/'', stakeContract = stake,
      registry_owner = deployer, owners = (\<lambda>i. 0), holdings = (\<lambda>a. 0),
      tokenApprovals = (\<lambda>i. 0), operatorApprovals = (\<lambda>a b. False),
      badgeMetadata = (\<lambda>i. \<lparr>badge_goalId = 0, badge_category = 0, completedAt = 0,
         badge_streak = 0\<rparr>),
      userBadgeCount = (\<lambda>a. 0), categoryBadgeCount = (\<lambda>a c. 0),
      badge_events = [BadgeOwnershipTransferred 0 deployer]\<rparr>"

text \<open>
  No transaction or message call has the zero address as its sender. \<open>real_sender\<close> says
  so of a call and of the calls nested in it.
\<close>

fun real_sender :: "nft_call \<Rightarrow> bool" where
  "real_sender (NftCall sender now f a nested) \<longleftrightarrow>
     sender \<noteq> 0 \<and> (\<forall>c\<in>set nested. real_sender c)"

text \<open>
  What holds of the registry in every state it reaches: ids from the counter on are not
  owned, a token without owner has no approved spender, and the zero address has no
  operator.
\<close>

definition clean :: "badges \<Rightarrow> bool" where
  "clean s \<longleftrightarrow>
     (\<forall>i\<ge>tokenCounter s. owners s i = 0) \<and>
     (\<forall>i. owners s i = 0 \<longrightarrow> tokenApprovals s i = 0) \<and>
     (\<forall>x. \<not> operatorApprovals s 0 x)"

text \<open>\<open>stays_burned s s'\<close>: ids are only added, and an id below the counter of \<open>s\<close> that
  has no owner in \<open>s\<close> has none in \<open>s'\<close>.\<close>

definition stays_burned :: "badges \<Rightarrow> badges \<Rightarrow> bool" where
  "stays_burned s s' \<longleftrightarrow>
     tokenCounter s \<le> tokenCounter s' \<and>
     (\<forall>i<tokenCounter s. owners s i = 0 \<longrightarrow> owners s' i = 0)"

text \<open>A registry deployed by account 1 for the ledger at 100, with one badge minted to 2.\<close>

definition demo_badges :: badges where
  "demo_badges = nft_run [NftCall 100 2000 (MintBadge 2 0 0 1) True []] (badge_constructor 1 100)"

definition demo_burned :: badges where
  "demo_burned = nft_settle (nft_exec (NftCall 2 3000 (Burn 0) True []) demo_badges) demo_badges"

section \<open>Accounting for the stakes\<close>

text \<open>
  The contract keeps no totals of what was deposited, withdrawn or donated, but it logs
  each of these movements: \<^verbatim>\<open>GoalCreated\<close> carries \<^verbatim>\<open>msg.value\<close>, \<^verbatim>\<open>StakeWithdrawn\<close> the
  amount sent to the owner, \<^verbatim>\<open>CharityDonation\<close> the goal and the amount sent to the
  beneficiary. The totals of the conservation property are read off the log.
\<close>

fun deposit_of :: "event \<Rightarrow> nat" where
  "deposit_of (GoalCreated g u v dl c d) = v"
| "deposit_of e = 0"

fun withdrawal_of :: "event \<Rightarrow> nat" where
  "withdrawal_of (StakeWithdrawn u a) = a"
| "withdrawal_of e = 0"

fun donation_of :: "event \<Rightarrow> nat" where
  "donation_of (CharityDonation g c a) = a"
| "donation_of e = 0"

fun donation_for :: "nat \<Rightarrow> event \<Rightarrow> nat" where
  "donation_for g (CharityDonation h c a) = (if h = g then a else 0)"
| "donation_for g e = 0"

definition totalDeposited :: "ledger \<Rightarrow> nat" where
  "totalDeposited s = sum_list (map deposit_of (events s))"

definition totalWithdrawn :: "ledger \<Rightarrow> nat" where
  "totalWithdrawn s = sum_list (map withdrawal_of (events s))"

definition totalDonated :: "ledger \<Rightarrow> nat" where
  "totalDonated s = sum_list (map donation_of (events s))"

definition donatedFor :: "ledger \<Rightarrow> nat \<Rightarrow> nat" where
  "donatedFor s g = sum_list (map (donation_for g) (events s))"

text \<open>The stakes recorded on the goals of a given status, and on all goals.\<close>

definition staked_with :: "8 word \<Rightarrow> ledger \<Rightarrow> nat" where
  "staked_with st s =
     (\<Sum>g<goalCounter s. if status (goals s g) = st then unat (stakeAmount (goals s g)) else 0)"

definition recorded :: "ledger \<Rightarrow> nat" where
  "recorded s = (\<Sum>g<goalCounter s. unat (stakeAmount (goals s g)))"

text \<open>What is stranded on failed goals: the recorded stake less what went to the beneficiary.\<close>

definition totalStranded :: "ledger \<Rightarrow> nat" where
  "totalStranded s =
     (\<Sum>g<goalCounter s. if status (goals s g) = 2
        then unat (stakeAmount (goals s g)) - donatedFor s g else 0)"

text \<open>
  \<^verbatim>\<open>createGoal\<close> records \<^verbatim>\<open>uint96(msg.value)\<close>, which is \<^verbatim>\<open>msg.value\<close> only below
  \<open>2^96\<close>. \<open>deposits_small\<close> says that every deposit in the log is.
\<close>

definition deposits_small :: "ledger \<Rightarrow> bool" where
  "deposits_small s = list_all (\<lambda>e. deposit_of e < 2 ^ 96) (events s)"

text \<open>
  What the log says of donations in every reachable state: only failed goals have
  received one, none more than its recorded stake, and the donations of the goals add up
  to the total. It rests on the share being at most 10000 basis points and on the status
  being one of 0, 1, 2.
\<close>

definition donations_sound :: "ledger \<Rightarrow> bool" where
  "donations_sound s \<longleftrightarrow>
     charityBasisPoints s \<le> 10000 \<and>
     (\<forall>g<goalCounter s. status (goals s g) = 2 \<longrightarrow>
        donatedFor s g \<le> unat (stakeAmount (goals s g))) \<and>
     (\<forall>g. \<not> (g < goalCounter s \<and> status (goals s g) = 2) \<longrightarrow> donatedFor s g = 0) \<and>
     (\<forall>g<goalCounter s. status (goals s g) = 0 \<or> status (goals s g) = 1 \<or>
        status (goals s g) = 2) \<and>
     totalDonated s = (\<Sum>g<goalCounter s. donatedFor s g)"

text \<open>
  \<open>accounted s s'\<close> relates a state to a later one: the goals went through their
  lifecycle, the log was extended, goals that were not Active received no donation, the
  recorded stakes and the withdrawals moved with the deposits, and the donations stay
  sound.
\<close>

definition accounted :: "ledger \<Rightarrow> ledger \<Rightarrow> bool" where
  "accounted s s' \<longleftrightarrow>
     lifecycle s s' \<and>
     (\<exists>rest. events s' = events s @ rest) \<and>
     (\<forall>g<goalCounter s. status (goals s g) \<noteq> 0 \<longrightarrow> donatedFor s' g = donatedFor s g) \<and>
     (deposits_small s' \<longrightarrow>
        recorded s' + totalWithdrawn s' + totalDeposited s =
        recorded s + totalWithdrawn s + totalDeposited s') \<and>
     (donations_sound s \<longrightarrow> donations_sound s')"

text \<open>An event that is neither a deposit, a withdrawal nor a donation.\<close>

definition neutral :: "event \<Rightarrow> bool" where
  "neutral e \<longleftrightarrow> deposit_of e = 0 \<and> withdrawal_of e = 0 \<and> donation_of e = 0 \<and>
     (\<forall>g. donation_for g e = 0)"



section \<open>Properties of the ledger\<close>

subsection \<open>Fields that logging and payment leave alone\<close>

lemma transfer_zero [simp]: "transfer a b 0 s = s"
  by (simp add: transfer_def)

lemma transfer_fields [simp]:
  "self (transfer a b n s) = self s"
  "owner (transfer a b n s) = owner s"
  "locked (transfer a b n s) = locked s"
  "goalCounter (transfer a b n s) = goalCounter s"
  "goals (transfer a b n s) = goals s"
  "votes (transfer a b n s) = votes s"
  "aiVerifier (transfer a b n s) = aiVerifier s"
  "badgeMinter (transfer a b n s) = badgeMinter s"
  "votingPeriod (transfer a b n s) = votingPeriod s"
  "minimumStake (transfer a b n s) = minimumStake s"
  "totalStaked (transfer a b n s) = totalStaked s"
  "charityAddress (transfer a b n s) = charityAddress s"
  "charityBasisPoints (transfer a b n s) = charityBasisPoints s"
  "userStreaks (transfer a b n s) = userStreaks s"
  "userHighestStreak (transfer a b n s) = userHighestStreak s"
  "events (transfer a b n s) = events s"
  "userGoals (transfer a b n s) = userGoals s"
  "badgeContract (transfer a b n s) = badgeContract s"
  by (simp_all add: transfer_def Let_def)

lemma emit_fields [simp]:
  "self (emit e s) = self s"
  "owner (emit e s) = owner s"
  "locked (emit e s) = locked s"
  "goalCounter (emit e s) = goalCounter s"
  "goals (emit e s) = goals s"
  "votes (emit e s) = votes s"
  "aiVerifier (emit e s) = aiVerifier s"
  "badgeMinter (emit e s) = badgeMinter s"
  "votingPeriod (emit e s) = votingPeriod s"
  "minimumStake (emit e s) = minimumStake s"
  "totalStaked (emit e s) = totalStaked s"
  "charityAddress (emit e s) = charityAddress s"
  "charityBasisPoints (emit e s) = charityBasisPoints s"
  "userStreaks (emit e s) = userStreaks s"
  "userHighestStreak (emit e s) = userHighestStreak s"
  "balances (emit e s) = balances s"
  "events (emit e s) = events s @ [e]"
  "userGoals (emit e s) = userGoals s"
  "badgeContract (emit e s) = badgeContract s"
  by (simp_all add: emit_def)

lemma demo_created_eq:
  "demo_created =
     emit (GoalCreated 0 2 100000000000000000 5000 0 ''Learn Solidity'')
       ((transfer 2 100 100000000000000000 demo_start)
          \<lparr>goalCounter := 1,
           goals := (\<lambda>i. empty_goal)(0 := empty_goal\<lparr>user := 2,
              stakeAmount := 100000000000000000, deadline := 5000, createdAt := 1000,
              status := 0, category := 0, description := ''Learn Solidity''\<rparr>),
           userGoals := (\<lambda>a. [])(2 := [0]),
           totalStaked := 100000000000000000\<rparr>)"
  by (simp add: demo_created_def transact_def settle_def demo_create_def demo_start_def
      constructor_def createGoal_def reenter_def uint256_max_def Let_def)

lemma demo_created_fields:
  "goalCounter demo_created = 1"
  "aiVerifier demo_created = 1"
  "owner demo_created = 1"
  "self demo_created = 100"
  "\<not> locked demo_created"
  "status (goals demo_created 0) = 0"
  "user (goals demo_created 0) = 2"
  "stakeAmount (goals demo_created 0) = 100000000000000000"
  "aiScore (goals demo_created 0) = 0"
  "votes demo_created 0 = empty_vote"
  "userStreaks demo_created 2 = 0"
  "userHighestStreak demo_created 2 = 0"
  "badgeMinter demo_created = 9"
  "charityAddress demo_created = 0"
  "charityBasisPoints demo_created = 5000"
  "votingPeriod demo_created = 604800"
  "totalStaked demo_created = 100000000000000000"
  "balances demo_created 100 = 1100000000000000000"
  "balances demo_created 2 = 900000000000000000"
  "balances demo_created 1 = 1000000000000000000"
  by (simp_all add: demo_created_eq demo_start_def constructor_def transfer_def Let_def empty_goal_def)

subsection \<open>Relations that every call respects\<close>

lemma reenter_rel:
  assumes refl: "\<And>s. R s s"
    and trans: "\<And>a b c. R a b \<Longrightarrow> R b c \<Longrightarrow> R a c"
    and ih: "\<And>c t t'. c \<in> set cs \<Longrightarrow> ex c t = Inr t' \<Longrightarrow> R t t'"
  shows "R s (reenter ex cs s)"
  using ih
proof (induction cs arbitrary: s)
  case Nil
  show ?case by (simp add: reenter_def refl)
next
  case (Cons c cs)
  have step: "R s (settle (ex c s) s)"
    using Cons.prems [of c s] by (cases "ex c s") (auto simp: settle_def refl)
  have rest: "R (settle (ex c s) s) (reenter ex cs (settle (ex c s) s))"
    by (rule Cons.IH) (use Cons.prems in auto)
  have "reenter ex (c # cs) s = reenter ex cs (settle (ex c s) s)"
    by (simp add: reenter_def)
  with trans [OF step rest] show ?case by simp
qed

lemma exec_rel:
  assumes refl: "\<And>s. R s s"
    and trans: "\<And>a b c. R a b \<Longrightarrow> R b c \<Longrightarrow> R a c"
    and step: "\<And>nest a k sender val now f s s'.
        (\<And>t. R t (nest t)) \<Longrightarrow> val \<le> balances s sender \<Longrightarrow> (val > 0 \<Longrightarrow> payable f) \<Longrightarrow>
        dispatch a k nest sender val now f (transfer sender (self s) val s) = Inr s' \<Longrightarrow> R s s'"
  shows "exec c s = Inr s' \<Longrightarrow> R s s'"
proof (induction c s arbitrary: s' rule: exec.induct)
  case (1 sender val now f a k nested s)
  from "1.prems" have c1: "\<not> balances s sender < val" and c2: "\<not> (val > 0 \<and> \<not> payable f)"
    and d: "dispatch a k (reenter exec nested) sender val now f (transfer sender (self s) val s) = Inr s'"
    by (auto split: if_splits)
  have nest: "R t (reenter exec nested t)" for t
  proof (rule reenter_rel [where R = R])
    show "\<And>u. R u u" by (rule refl)
    show "\<And>u v w. R u v \<Longrightarrow> R v w \<Longrightarrow> R u w" by (rule trans)
    show "\<And>c u u'. c \<in> set nested \<Longrightarrow> exec c u = Inr u' \<Longrightarrow> R u u'"
      by (rule "1.IH" [OF c1 c2])
  qed
  show ?case
    by (rule step [OF nest _ _ d]) (use c1 c2 in auto)
qed

lemma lifecycle_refl: "lifecycle s s"
  by (simp add: lifecycle_def)

lemma lifecycle_trans:
  assumes ab: "lifecycle a b" and bc: "lifecycle b c"
  shows "lifecycle a c"
proof -
  have top: "self c = self a" "goalCounter a \<le> goalCounter c"
    using ab bc by (auto simp: lifecycle_def)
  have each: "user (goals c g) = user (goals a g) \<and>
        (status (goals a g) \<noteq> 0 \<longrightarrow>
           status (goals c g) = status (goals a g) \<and> votes c g = votes a g \<and>
           aiScore (goals c g) = aiScore (goals a g)) \<and>
        (stakeAmount (goals c g) = stakeAmount (goals a g) \<or>
         stakeAmount (goals c g) = 0 \<and> status (goals c g) = 1)"
    if g: "g < goalCounter a" for g
  proof -
    have gb: "g < goalCounter b"
      using ab g by (auto simp: lifecycle_def)
    have A: "user (goals b g) = user (goals a g)"
      "status (goals a g) \<noteq> 0 \<Longrightarrow> status (goals b g) = status (goals a g)"
      "status (goals a g) \<noteq> 0 \<Longrightarrow> votes b g = votes a g"
      "status (goals a g) \<noteq> 0 \<Longrightarrow> aiScore (goals b g) = aiScore (goals a g)"
      "stakeAmount (goals b g) = stakeAmount (goals a g) \<or>
         stakeAmount (goals b g) = 0 \<and> status (goals b g) = 1"
      using ab g by (auto simp: lifecycle_def)
    have B: "user (goals c g) = user (goals b g)"
      "status (goals b g) \<noteq> 0 \<Longrightarrow> status (goals c g) = status (goals b g)"
      "status (goals b g) \<noteq> 0 \<Longrightarrow> votes c g = votes b g"
      "status (goals b g) \<noteq> 0 \<Longrightarrow> aiScore (goals c g) = aiScore (goals b g)"
      "stakeAmount (goals c g) = stakeAmount (goals b g) \<or>
         stakeAmount (goals c g) = 0 \<and> status (goals c g) = 1"
      using bc gb by (auto simp: lifecycle_def)
    show ?thesis
      using A B by (cases "status (goals b g) = 0") auto
  qed
  show ?thesis
    unfolding lifecycle_def using top each by blast
qed

lemma lifecycle_emit: "lifecycle s t \<Longrightarrow> lifecycle s (emit e t)"
  by (simp add: lifecycle_def emit_def)

lemma lifecycle_transfer: "lifecycle s t \<Longrightarrow> lifecycle s (transfer a b n t)"
  by (simp add: lifecycle_def transfer_def Let_def)

lemma lifecycle_locked: "lifecycle s t \<Longrightarrow> lifecycle s (t\<lparr>locked := b\<rparr>)"
  by (simp add: lifecycle_def)

lemma withdrawStake_lifecycle:
  assumes nest: "\<And>t. lifecycle t (nest t)"
    and ok: "withdrawStake a nest sender g s = Inr s'"
  shows "lifecycle s s'"
proof -
  let ?s2 = "s\<lparr>locked := True,
      goals := (goals s)(g := (goals s g)\<lparr>stakeAmount := 0\<rparr>),
      totalStaked := totalStaked s - unat (stakeAmount (goals s g))\<rparr>"
  let ?t = "transfer (self s) sender (unat (stakeAmount (goals s g))) ?s2"
  from ok have g: "g < goalCounter s" and st: "status (goals s g) = 1"
    and s': "s' = (emit (StakeWithdrawn sender (unat (stakeAmount (goals s g)))) (nest ?t))\<lparr>locked := False\<rparr>"
    by (auto simp: withdrawStake_def call_value_def Let_def split: if_splits)
  have "lifecycle s ?t"
    using g st by (simp add: lifecycle_def transfer_def Let_def)
  then have "lifecycle s (nest ?t)"
    by (rule lifecycle_trans) (rule nest)
  then show ?thesis
    unfolding s' by (intro lifecycle_locked lifecycle_emit)
qed

lemma lifecycle_set_status:
  "g < goalCounter s \<Longrightarrow> status (goals s g) = 0 \<Longrightarrow> lifecycle s (set_status g st s)"
  by (simp add: lifecycle_def set_status_def)

lemma lifecycle_aiScore:
  "g < goalCounter s \<Longrightarrow> status (goals s g) = 0 \<Longrightarrow>
   lifecycle s (s\<lparr>goals := (goals s)(g := (goals s g)\<lparr>aiScore := x\<rparr>)\<rparr>)"
  by (simp add: lifecycle_def)

lemma onGoalCompleted_lifecycle:
  assumes nest: "\<And>t. lifecycle t (nest t)"
    and ok: "onGoalCompleted k nest g s = Inr s'"
  shows "lifecycle s s'"
proof -
  let ?u = "user (goals s g)"
  let ?s1 = "s\<lparr>userStreaks := (userStreaks s)(?u := userStreaks s ?u + 1)\<rparr>"
  let ?s2 = "if userStreaks ?s1 ?u > userHighestStreak ?s1 ?u
             then ?s1\<lparr>userHighestStreak := (userHighestStreak ?s1)(?u := userStreaks ?s1 ?u)\<rparr>
             else ?s1"
  have s2: "lifecycle s ?s2"
    by (simp add: lifecycle_def)
  from ok consider "s' = ?s2"
    | tokenId where "s' = emit (BadgeMintedForGoal g (user (goals (nest ?s2) g)) tokenId) (nest ?s2)"
    by (auto simp: onGoalCompleted_def call_mintBadge_def Let_def split: if_splits mint_answer.splits)
  then show ?thesis
  proof cases
    case 1
    with s2 show ?thesis by simp
  next
    case 2
    have "lifecycle s (nest ?s2)"
      using s2 by (rule lifecycle_trans) (rule nest)
    then show ?thesis
      unfolding 2 by (rule lifecycle_emit)
  qed
qed

lemma onGoalFailed_lifecycle:
  assumes nest: "\<And>t. lifecycle t (nest t)"
    and ok: "onGoalFailed a nest g s = Inr s'"
  shows "lifecycle s s'"
proof -
  let ?s1 = "s\<lparr>userStreaks := (userStreaks s)(user (goals s g) := 0)\<rparr>"
  let ?amt = "unat (stakeAmount (goals s g)) * charityBasisPoints s div 10000"
  let ?t = "nest (transfer (self s) (charityAddress s) ?amt ?s1)"
  have s1: "lifecycle s ?s1"
    by (simp add: lifecycle_def)
  from ok consider "s' = ?s1" | "s' = emit (CharityDonation g (charityAddress ?t) ?amt) ?t"
    by (auto simp: onGoalFailed_def call_value_def Let_def split: if_splits)
  then show ?thesis
  proof cases
    case 1
    with s1 show ?thesis by simp
  next
    case 2
    have "lifecycle s (transfer (self s) (charityAddress s) ?amt ?s1)"
      using s1 by (rule lifecycle_transfer)
    then have "lifecycle s ?t"
      by (rule lifecycle_trans) (rule nest)
    then show ?thesis
      unfolding 2 by (rule lifecycle_emit)
  qed
qed

lemma setAIScore_lifecycle:
  assumes nest: "\<And>t. lifecycle t (nest t)"
    and ok: "setAIScore a k nest sender now g score s = Inr s'"
  shows "lifecycle s s'"
proof -
  let ?s1 = "s\<lparr>goals := (goals s)(g := (goals s g)\<lparr>aiScore := score\<rparr>)\<rparr>"
  from ok have g: "g < goalCounter s" and st: "status (goals s g) = 0"
    by (auto simp: setAIScore_def split: if_splits)
  have s1: "lifecycle s ?s1"
    using g st by (rule lifecycle_aiScore)
  have s1': "lifecycle s (set_status g x ?s1)" for x
    using g st by (simp add: lifecycle_def set_status_def)
  from ok g st consider
      s2 where "onGoalCompleted k nest g (set_status g 1 ?s1) = Inr s2"
        "s' = emit (GoalVerified g sender score (score \<ge> 75))
               (emit (AIScoredProof g score ''AI verification complete'')
                 (emit (GoalResolved g 1) s2))"
    | s2 where "onGoalFailed a nest g (set_status g 2 ?s1) = Inr s2"
        "s' = emit (GoalVerified g sender score (score \<ge> 75))
               (emit (AIScoredProof g score ''AI verification complete'')
                 (emit (GoalResolved g 2) s2))"
    | "s' = emit (GoalVerified g sender score (score \<ge> 75))
               (emit (AIScoredProof g score ''AI verification complete'')
                 (emit (VoteStarted g (now + votingPeriod s)) ?s1))"
    by (auto simp: setAIScore_def Let_def split: if_splits sum.splits)
  then show ?thesis
  proof cases
    case 1
    from s1' onGoalCompleted_lifecycle [OF nest 1(1)] have "lifecycle s s2"
      by (rule lifecycle_trans)
    then show ?thesis unfolding 1(2) by (intro lifecycle_emit)
  next
    case 2
    from s1' onGoalFailed_lifecycle [OF nest 2(1)] have "lifecycle s s2"
      by (rule lifecycle_trans)
    then show ?thesis unfolding 2(2) by (intro lifecycle_emit)
  next
    case 3
    from s1 show ?thesis unfolding 3 by (intro lifecycle_emit)
  qed
qed

lemma verifyGoal_lifecycle:
  assumes nest: "\<And>t. lifecycle t (nest t)"
    and ok: "verifyGoal a k nest sender g result s = Inr s'"
  shows "lifecycle s s'"
proof -
  let ?score = "if result then 100 else 0 :: 64 word"
  let ?s1 = "s\<lparr>goals := (goals s)(g := (goals s g)\<lparr>aiScore := ?score\<rparr>)\<rparr>"
  from ok have g: "g < goalCounter s" and st: "status (goals s g) = 0"
    by (auto simp: verifyGoal_def split: if_splits)
  have s1': "lifecycle s (set_status g x ?s1)" for x
    using g st by (simp add: lifecycle_def set_status_def)
  from ok g st consider
      s2 e1 e2 where "onGoalCompleted k nest g (set_status g 1 ?s1) = Inr s2"
        "s' = emit e1 (emit e2 (emit (GoalResolved g 1) s2))"
    | s2 e1 e2 where "onGoalFailed a nest g (set_status g 2 ?s1) = Inr s2"
        "s' = emit e1 (emit e2 (emit (GoalResolved g 2) s2))"
    by (auto simp: verifyGoal_def Let_def split: if_splits sum.splits)
  then show ?thesis
  proof cases
    case 1
    from s1' onGoalCompleted_lifecycle [OF nest 1(1)] have "lifecycle s s2"
      by (rule lifecycle_trans)
    then show ?thesis unfolding 1(2) by (intro lifecycle_emit)
  next
    case 2
    from s1' onGoalFailed_lifecycle [OF nest 2(1)] have "lifecycle s s2"
      by (rule lifecycle_trans)
    then show ?thesis unfolding 2(2) by (intro lifecycle_emit)
  qed
qed

lemma resolveVote_lifecycle:
  assumes nest: "\<And>t. lifecycle t (nest t)"
    and ok: "resolveVote a k nest g s = Inr s'"
  shows "lifecycle s s'"
proof -
  let ?pass = "yesVotes (votes s g) > noVotes (votes s g)"
  let ?s1 = "s\<lparr>locked := True, votes := (votes s)(g :=
                 (votes s g)\<lparr>resolved := True, passed := ?pass\<rparr>)\<rparr>"
  from ok have g: "g < goalCounter s" and st: "status (goals s g) = 0"
    by (auto simp: resolveVote_def Let_def split: if_splits)
  have s1': "lifecycle s (set_status g x ?s1)" for x
    using g st by (simp add: lifecycle_def set_status_def)
  from ok g st consider
      s2 e1 e2 where "onGoalCompleted k nest g (set_status g 1 ?s1) = Inr s2"
        "s' = (emit e1 (emit e2 s2))\<lparr>locked := False\<rparr>"
    | s2 e1 e2 where "onGoalFailed a nest g (set_status g 2 ?s1) = Inr s2"
        "s' = (emit e1 (emit e2 s2))\<lparr>locked := False\<rparr>"
    by (auto simp: resolveVote_def Let_def split: if_splits sum.splits)
  then show ?thesis
  proof cases
    case 1
    from s1' onGoalCompleted_lifecycle [OF nest 1(1)] have "lifecycle s s2"
      by (rule lifecycle_trans)
    then show ?thesis unfolding 1(2) by (intro lifecycle_locked lifecycle_emit)
  next
    case 2
    from s1' onGoalFailed_lifecycle [OF nest 2(1)] have "lifecycle s s2"
      by (rule lifecycle_trans)
    then show ?thesis unfolding 2(2) by (intro lifecycle_locked lifecycle_emit)
  qed
qed

lemma createGoal_lifecycle:
  "createGoal sender val now dl cat descr s = Inr s' \<Longrightarrow> lifecycle s s'"
  by (auto simp: createGoal_def lifecycle_def emit_def Let_def split: if_splits)

lemma submitProof_lifecycle:
  "submitProof sender now g uri s = Inr s' \<Longrightarrow> lifecycle s s'"
  by (auto simp: submitProof_def lifecycle_def emit_def split: if_splits)

lemma vote_lifecycle:
  "vote sender g support s = Inr s' \<Longrightarrow> lifecycle s s'"
  by (auto simp: vote_def lifecycle_def emit_def Let_def split: if_splits)

lemma admin_lifecycle:
  "setAIVerifier sender x s = Inr s' \<Longrightarrow> lifecycle s s'"
  "setMinimumStake sender n s = Inr s' \<Longrightarrow> lifecycle s s'"
  "setVotingPeriod sender n s = Inr s' \<Longrightarrow> lifecycle s s'"
  "setCharityAddress sender x s = Inr s' \<Longrightarrow> lifecycle s s'"
  "setCharityBasisPoints sender n s = Inr s' \<Longrightarrow> lifecycle s s'"
  "setBadgeContract sender x s = Inr s' \<Longrightarrow> lifecycle s s'"
  "transferOwnership sender x s = Inr s' \<Longrightarrow> lifecycle s s'"
  "renounceOwnership sender s = Inr s' \<Longrightarrow> lifecycle s s'"
  by (auto simp: setAIVerifier_def setMinimumStake_def setVotingPeriod_def
      setCharityAddress_def setCharityBasisPoints_def setBadgeContract_def
      transferOwnership_def renounceOwnership_def lifecycle_def emit_def split: if_splits)

lemma dispatch_lifecycle:
  assumes nest: "\<And>t. lifecycle t (nest t)"
    and ok: "dispatch a k nest sender val now f s = Inr s'"
  shows "lifecycle s s'"
  using ok
  by (cases f)
    (auto intro: createGoal_lifecycle submitProof_lifecycle vote_lifecycle admin_lifecycle
      setAIScore_lifecycle [OF nest] verifyGoal_lifecycle [OF nest]
      resolveVote_lifecycle [OF nest] withdrawStake_lifecycle [OF nest] lifecycle_refl)

lemma exec_lifecycle: "exec c s = Inr s' \<Longrightarrow> lifecycle s s'"
proof (rule exec_rel [where R = lifecycle])
  show "\<And>u. lifecycle u u" by (rule lifecycle_refl)
  show "\<And>u v w. lifecycle u v \<Longrightarrow> lifecycle v w \<Longrightarrow> lifecycle u w" by (rule lifecycle_trans)
  show "lifecycle u u'"
    if "\<And>t. lifecycle t (nest t)"
      and "dispatch a k nest sender val now f (transfer sender (self u) val u) = Inr u'"
    for nest a k sender val now f u u'
  proof -
    have "lifecycle u (transfer sender (self u) val u)"
      by (rule lifecycle_transfer) (rule lifecycle_refl)
    then show ?thesis
      by (rule lifecycle_trans) (rule dispatch_lifecycle [OF that])
  qed
qed

lemma transact_lifecycle: "lifecycle s (transact c s)"
  by (cases "exec c s") (auto simp: transact_def settle_def lifecycle_refl exec_lifecycle)

lemma run_lifecycle: "lifecycle s (run cs s)"
proof (induction cs arbitrary: s)
  case Nil
  show ?case by (simp add: run_def lifecycle_refl)
next
  case (Cons c cs)
  have "lifecycle s (transact c s)" by (rule transact_lifecycle)
  moreover have "lifecycle (transact c s) (run cs (transact c s))" by (rule Cons.IH)
  ultimately show ?case
    by (simp add: run_def lifecycle_trans)
qed

lemma onGoalCompleted_locked:
  assumes nest: "\<And>t. locked (nest t) = locked t"
    and ok: "onGoalCompleted k nest g s = Inr s'"
  shows "locked s' = locked s"
  using ok
  by (auto simp: onGoalCompleted_def call_mintBadge_def emit_def Let_def nest
      split: if_splits mint_answer.splits)

lemma onGoalFailed_locked:
  assumes nest: "\<And>t. locked (nest t) = locked t"
    and ok: "onGoalFailed a nest g s = Inr s'"
  shows "locked s' = locked s"
  using ok
  by (auto simp: onGoalFailed_def call_value_def transfer_def emit_def Let_def nest
      split: if_splits)

lemma setAIScore_locked:
  assumes nest: "\<And>t. locked (nest t) = locked t"
    and ok: "setAIScore a k nest sender now g score s = Inr s'"
  shows "locked s' = locked s"
proof -
  let ?s1 = "s\<lparr>goals := (goals s)(g := (goals s g)\<lparr>aiScore := score\<rparr>)\<rparr>"
  from ok consider
      s2 x where "onGoalCompleted k nest g (set_status g x ?s1) = Inr s2"
        "locked s' = locked s2"
    | s2 x where "onGoalFailed a nest g (set_status g x ?s1) = Inr s2"
        "locked s' = locked s2"
    | "locked s' = locked s"
    by (auto simp: setAIScore_def emit_def Let_def split: if_splits sum.splits)
  then show ?thesis
  proof cases
    case 1
    from onGoalCompleted_locked [OF nest 1(1)] 1(2) show ?thesis
      by (simp add: set_status_def)
  next
    case 2
    from onGoalFailed_locked [OF nest 2(1)] 2(2) show ?thesis
      by (simp add: set_status_def)
  qed
qed

lemma verifyGoal_locked:
  assumes nest: "\<And>t. locked (nest t) = locked t"
    and ok: "verifyGoal a k nest sender g result s = Inr s'"
  shows "locked s' = locked s"
proof -
  let ?s1 = "s\<lparr>goals := (goals s)(g := (goals s g)\<lparr>aiScore := if result then 100 else 0\<rparr>)\<rparr>"
  from ok consider
      s2 x where "onGoalCompleted k nest g (set_status g x ?s1) = Inr s2"
        "locked s' = locked s2"
    | s2 x where "onGoalFailed a nest g (set_status g x ?s1) = Inr s2"
        "locked s' = locked s2"
    by (auto simp: verifyGoal_def emit_def Let_def split: if_splits sum.splits)
  then show ?thesis
  proof cases
    case 1
    from onGoalCompleted_locked [OF nest 1(1)] 1(2) show ?thesis
      by (simp add: set_status_def)
  next
    case 2
    from onGoalFailed_locked [OF nest 2(1)] 2(2) show ?thesis
      by (simp add: set_status_def)
  qed
qed

lemma nonReentrant_locked:
  "createGoal sender val now dl cat descr s = Inr s' \<Longrightarrow> \<not> locked s \<and> \<not> locked s'"
  "submitProof sender now g uri s = Inr s' \<Longrightarrow> \<not> locked s \<and> \<not> locked s'"
  "vote sender g support s = Inr s' \<Longrightarrow> \<not> locked s \<and> \<not> locked s'"
  "resolveVote a k nest g s = Inr s' \<Longrightarrow> \<not> locked s \<and> \<not> locked s'"
  "withdrawStake a nest sender g s = Inr s' \<Longrightarrow> \<not> locked s \<and> \<not> locked s'"
  by (auto simp: createGoal_def submitProof_def vote_def resolveVote_def withdrawStake_def
      emit_def Let_def split: if_splits sum.splits prod.splits bool.splits)

lemma admin_locked:
  "setAIVerifier sender x s = Inr s' \<Longrightarrow> locked s' = locked s"
  "setMinimumStake sender n s = Inr s' \<Longrightarrow> locked s' = locked s"
  "setVotingPeriod sender n s = Inr s' \<Longrightarrow> locked s' = locked s"
  "setCharityAddress sender x s = Inr s' \<Longrightarrow> locked s' = locked s"
  "setCharityBasisPoints sender n s = Inr s' \<Longrightarrow> locked s' = locked s"
  "setBadgeContract sender x s = Inr s' \<Longrightarrow> locked s' = locked s"
  "transferOwnership sender x s = Inr s' \<Longrightarrow> locked s' = locked s"
  "renounceOwnership sender s = Inr s' \<Longrightarrow> locked s' = locked s"
  by (auto simp: setAIVerifier_def setMinimumStake_def setVotingPeriod_def
      setCharityAddress_def setCharityBasisPoints_def setBadgeContract_def
      transferOwnership_def renounceOwnership_def emit_def split: if_splits)

lemma dispatch_locked:
  assumes nest: "\<And>t. locked (nest t) = locked t"
    and ok: "dispatch a k nest sender val now f s = Inr s'"
  shows "locked s' = locked s"
  using ok
  by (cases f)
    (auto dest: nonReentrant_locked admin_locked setAIScore_locked [OF nest]
      verifyGoal_locked [OF nest])

lemma exec_locked: "exec c s = Inr s' \<Longrightarrow> locked s' = locked s"
proof (rule exec_rel [where R = "\<lambda>u u'. locked u' = locked u"])
  show "locked u' = locked u"
    if "\<And>t. locked (nest t) = locked t"
      and "dispatch a k nest sender val now f (transfer sender (self u) val u) = Inr u'"
    for nest a k sender val now f u u'
    using dispatch_locked [OF that] by (simp add: transfer_def Let_def)
qed simp_all

lemma transact_locked: "locked (transact c s) = locked s"
  by (cases "exec c s") (auto simp: transact_def settle_def exec_locked)

lemma run_locked: "locked (run cs s) = locked s"
  by (induction cs arbitrary: s) (simp_all add: run_def transact_locked)

lemma lifecycle_terminal:
  assumes "lifecycle s s'" and "g < goalCounter s" and "status (goals s g) \<noteq> 0"
  shows "g < goalCounter s'" and "status (goals s' g) = status (goals s g)"
    and "votes s' g = votes s g" and "aiScore (goals s' g) = aiScore (goals s g)"
  using assms by (auto simp: lifecycle_def)

lemma scoring_needs_active:
  assumes "status (goals s g) \<noteq> 0"
  shows "\<exists>e. setAIScore a k nest sender now g score s = Inl e"
    and "\<exists>e. verifyGoal a k nest sender g result s = Inl e"
    and "\<exists>e. vote sender g support s = Inl e"
    and "\<exists>e. resolveVote a k nest g s = Inl e"
  using assms by (simp_all add: setAIScore_def verifyGoal_def vote_def resolveVote_def Let_def)

lemma exec_Inl_dispatch:
  assumes "\<exists>e. dispatch a k (reenter exec nested) sender val now f (transfer sender (self s) val s) = Inl e"
  shows "\<exists>e. exec (Call sender val now f a k nested) s = Inl e"
  using assms by auto

lemma demo_completed_eq:
  "demo_completed =
     emit (GoalVerified 0 1 90 True)
       (emit (AIScoredProof 0 90 ''AI verification complete'')
         (emit (GoalResolved 0 1)
           (emit (BadgeMintedForGoal 0 2 0)
             (demo_created\<lparr>goals := (goals demo_created)(0 := (goals demo_created 0)\<lparr>aiScore := 90, status := 1\<rparr>),
                userStreaks := (userStreaks demo_created)(2 := 1),
                userHighestStreak := (userHighestStreak demo_created)(2 := 1)\<rparr>))))"
  by (simp add: demo_completed_def demo_score_def transact_def settle_def setAIScore_def
      onGoalCompleted_def call_mintBadge_def set_status_def reenter_def Let_def
      demo_created_fields)

lemma demo_completed_fields:
  "goalCounter demo_completed = 1"
  "aiVerifier demo_completed = 1"
  "owner demo_completed = 1"
  "self demo_completed = 100"
  "\<not> locked demo_completed"
  "status (goals demo_completed 0) = 1"
  "user (goals demo_completed 0) = 2"
  "stakeAmount (goals demo_completed 0) = 100000000000000000"
  "userStreaks demo_completed 2 = 1"
  "totalStaked demo_completed = 100000000000000000"
  "balances demo_completed 100 = 1100000000000000000"
  "balances demo_completed 2 = 900000000000000000"
  by (simp_all add: demo_completed_eq demo_created_fields)

lemma reenter_lifecycle: "lifecycle t (reenter exec cs t)"
proof (rule reenter_rel [where R = lifecycle])
  show "\<And>u. lifecycle u u" by (rule lifecycle_refl)
  show "\<And>u v w. lifecycle u v \<Longrightarrow> lifecycle v w \<Longrightarrow> lifecycle u w" by (rule lifecycle_trans)
  show "\<And>c u u'. c \<in> set cs \<Longrightarrow> exec c u = Inr u' \<Longrightarrow> lifecycle u u'"
    by (rule exec_lifecycle)
qed

lemma onGoalCompleted_total:
  assumes "userStreaks s (user (goals s g)) \<noteq> - 1"
    and "badgeMinter s \<noteq> 0 \<longrightarrow> k \<noteq> NoAnswer"
  shows "\<exists>s'. onGoalCompleted k nest g s = Inr s'"
  using assms
  by (auto simp: onGoalCompleted_def call_mintBadge_def Let_def split: mint_answer.splits)

lemma onGoalCompleted_no_answer:
  assumes "userStreaks s (user (goals s g)) \<noteq> - 1" and "badgeMinter s \<noteq> 0"
  shows "onGoalCompleted NoAnswer nest g s = Inl BadgeCallFailed"
  using assms by (simp add: onGoalCompleted_def call_mintBadge_def Let_def)

lemma stake_times_bps:
  "bps \<le> 10000 \<Longrightarrow> unat (x :: 96 word) * bps \<le> uint256_max"
proof -
  assume b: "bps \<le> 10000"
  have "unat x < 2 ^ 96"
    using unsigned_less [of x] by simp
  then have "unat x * bps \<le> 2 ^ 96 * 10000"
    using b by (intro mult_mono) auto
  also have "\<dots> \<le> uint256_max"
    by (simp add: uint256_max_def)
  finally show ?thesis .
qed

lemma onGoalFailed_total:
  "charityBasisPoints s \<le> 10000 \<Longrightarrow> \<exists>s'. onGoalFailed a nest g s = Inr s'"
  using stake_times_bps [of "charityBasisPoints s" "stakeAmount (goals s g)"]
  by (simp add: onGoalFailed_def call_value_def Let_def)

lemma set_status_fields [simp]:
  "goalCounter (set_status g x s) = goalCounter s"
  "status (goals (set_status g x s) g) = x"
  "user (goals (set_status g x s) h) = user (goals s h)"
  "stakeAmount (goals (set_status g x s) h) = stakeAmount (goals s h)"
  "aiScore (goals (set_status g x s) h) = aiScore (goals s h)"
  "userStreaks (set_status g x s) = userStreaks s"
  "userHighestStreak (set_status g x s) = userHighestStreak s"
  "charityBasisPoints (set_status g x s) = charityBasisPoints s"
  "charityAddress (set_status g x s) = charityAddress s"
  "badgeMinter (set_status g x s) = badgeMinter s"
  "balances (set_status g x s) = balances s"
  "self (set_status g x s) = self s"
  "locked (set_status g x s) = locked s"
  "votes (set_status g x s) = votes s"
  "events (set_status g x s) = events s"
  "totalStaked (set_status g x s) = totalStaked s"
  by (simp_all add: set_status_def)

lemma onGoalCompleted_keeps_status:
  assumes "onGoalCompleted k (reenter exec nested) g s = Inr s'"
    and "g < goalCounter s" and "status (goals s g) \<noteq> 0"
  shows "status (goals s' g) = status (goals s g)"
  using lifecycle_terminal(2) [OF onGoalCompleted_lifecycle [OF reenter_lifecycle assms(1)] assms(2,3)] .

lemma onGoalFailed_keeps_status:
  assumes "onGoalFailed a (reenter exec nested) g s = Inr s'"
    and "g < goalCounter s" and "status (goals s g) \<noteq> 0"
  shows "status (goals s' g) = status (goals s g)"
  using lifecycle_terminal(2) [OF onGoalFailed_lifecycle [OF reenter_lifecycle assms(1)] assms(2,3)] .

lemma demo_voted_fields:
  "goalCounter demo_voted = 1"
  "\<not> locked demo_voted"
  "status (goals demo_voted 0) = 0"
  "aiScore (goals demo_voted 0) = 55"
  "user (goals demo_voted 0) = 2"
  "yesVotes (votes demo_voted 0) = 2"
  "noVotes (votes demo_voted 0) = 1"
  "\<not> resolved (votes demo_voted 0)"
  "charityBasisPoints demo_voted = 5000"
  "userStreaks demo_voted 2 = 0"
  "aiVerifier demo_voted = 1"
  "badgeMinter demo_voted = 9"
  by (simp_all add: demo_voted_def run_def transact_def settle_def setAIScore_def vote_def
      reenter_def demo_created_fields uint256_max_def empty_vote_def Let_def)


lemma reenter_Nil [simp]: "reenter ex [] s = s"
  by (simp add: reenter_def)

lemma well_configured_cong:
  assumes "well_configured s" and "charityBasisPoints t = charityBasisPoints s"
    and "goalCounter t = goalCounter s" and "votes t = votes s"
  shows "well_configured t"
  using assms by (simp add: well_configured_def)










lemma resolveVote_passed_alone:
  assumes g: "g < goalCounter s" and unlocked: "\<not> locked s"
    and active: "status (goals s g) = 0" and open_vote: "\<not> resolved (votes s g)"
    and pass: "noVotes (votes s g) < yesVotes (votes s g)"
    and streak: "userStreaks s (user (goals s g)) \<noteq> - 1"
    and answer: "badgeMinter s \<noteq> 0 \<longrightarrow> k \<noteq> NoAnswer"
  shows "\<exists>s2. resolveVote a k (\<lambda>u. u) g s = Inr s2 \<and>
     resolved (votes s2 g) \<and> passed (votes s2 g) \<and> status (goals s2 g) = 1 \<and>
     userStreaks s2 =
       (userStreaks s)(user (goals s g) := userStreaks s (user (goals s g)) + 1) \<and>
     userHighestStreak s2 =
       (userHighestStreak s)(user (goals s g) :=
          max (userHighestStreak s (user (goals s g))) (userStreaks s (user (goals s g)) + 1)) \<and>
     balances s2 = balances s \<and>
     events s2 = events s @
       (case k of
          Minted tokenId \<Rightarrow>
            if badgeMinter s \<noteq> 0 then [BadgeMintedForGoal g (user (goals s g)) tokenId] else []
        | other \<Rightarrow> []) @
       [VoteResolved g True (yesVotes (votes s g)) (noVotes (votes s g)), GoalResolved g 1]"
  using assms
  by (auto simp: resolveVote_def onGoalCompleted_def call_mintBadge_def set_status_def emit_def
      Let_def max_def not_less fun_upd_idem_iff split: mint_answer.splits)




lemma stake_already_zero:
  "stakeAmount (goals s g) = 0 \<Longrightarrow> (goals s)(g := (goals s g)\<lparr>stakeAmount := 0\<rparr>) = goals s"
  by (cases "goals s g") (auto simp: fun_upd_idem_iff)

lemma withdrawStake_after:
  assumes "withdrawStake a (reenter exec ns) u g s = Inr s1"
  shows "g < goalCounter s1" "user (goals s1 g) = u" "status (goals s1 g) = 1"
    "stakeAmount (goals s1 g) = 0" "\<not> locked s1"
proof -
  let ?b = "s\<lparr>locked := True,
      goals := (goals s)(g := (goals s g)\<lparr>stakeAmount := 0\<rparr>),
      totalStaked := totalStaked s - unat (stakeAmount (goals s g))\<rparr>"
  let ?t = "transfer (self s) u (unat (stakeAmount (goals s g))) ?b"
  from assms have g: "g < goalCounter s" and usr: "user (goals s g) = u"
    and st: "status (goals s g) = 1"
    and s1: "s1 = (emit (StakeWithdrawn u (unat (stakeAmount (goals s g))))
                    (reenter exec ns ?t))\<lparr>locked := False\<rparr>"
    by (auto simp: withdrawStake_def call_value_def Let_def split: if_splits)
  have life: "lifecycle ?t (reenter exec ns ?t)"
    by (rule reenter_lifecycle)
  have t: "g < goalCounter ?t" "status (goals ?t g) = 1" "stakeAmount (goals ?t g) = 0"
    "user (goals ?t g) = u"
    using g usr st by simp_all
  from life t have "g < goalCounter (reenter exec ns ?t)"
    "user (goals (reenter exec ns ?t) g) = u" "status (goals (reenter exec ns ?t) g) = 1"
    "stakeAmount (goals (reenter exec ns ?t) g) = 0"
    by (auto simp: lifecycle_def)
  then show "g < goalCounter s1" "user (goals s1 g) = u" "status (goals s1 g) = 1"
    "stakeAmount (goals s1 g) = 0" "\<not> locked s1"
    unfolding s1 by simp_all
qed

lemma lifecycle_withdrawn:
  assumes "lifecycle s s'" and "g < goalCounter s" and "status (goals s g) = 1"
    and "stakeAmount (goals s g) = 0"
  shows "g < goalCounter s'" "user (goals s' g) = user (goals s g)" "status (goals s' g) = 1"
    "stakeAmount (goals s' g) = 0"
  using assms by (auto simp: lifecycle_def)

lemma withdrawStake_of_nothing:
  assumes "g < goalCounter s" and "\<not> locked s" and "user (goals s g) = u"
    and "status (goals s g) = 1" and "stakeAmount (goals s g) = 0"
  shows "withdrawStake a nest u g s =
     (if a then Inr ((emit (StakeWithdrawn u 0) (nest (s\<lparr>locked := True\<rparr>)))\<lparr>locked := False\<rparr>)
      else Inl WithdrawalFailed)"
  using assms by (simp add: withdrawStake_def call_value_def stake_already_zero Let_def)

lemma emit_unlocked:
  "\<not> locked s \<Longrightarrow> (emit e (s\<lparr>locked := True\<rparr>))\<lparr>locked := False\<rparr> = emit e s"
  by (cases s) (simp add: emit_def)

lemma demo_withdrawn_exec: "exec demo_withdraw demo_completed = Inr demo_withdrawn"
  by (simp add: demo_withdrawn_def demo_withdraw_def transact_def settle_def withdrawStake_def
      call_value_def demo_completed_fields Let_def)

lemma demo_withdrawn_fields:
  "goalCounter demo_withdrawn = 1"
  "\<not> locked demo_withdrawn"
  "status (goals demo_withdrawn 0) = 1"
  "user (goals demo_withdrawn 0) = 2"
  "stakeAmount (goals demo_withdrawn 0) = 0"
  "totalStaked demo_withdrawn = 0"
  "balances demo_withdrawn 100 = 1000000000000000000"
  "balances demo_withdrawn 2 = 1000000000000000000"
  by (simp_all add: demo_withdrawn_def demo_withdraw_def transact_def settle_def
      withdrawStake_def call_value_def transfer_def demo_completed_fields Let_def)

lemma nonReentrant_while_locked:
  assumes "locked t"
  shows "\<exists>e. exec (Call sender val now (WithdrawStake g) a k ns) t = Inl e"
    and "\<exists>e. exec (Call sender val now (ResolveVote g) a k ns) t = Inl e"
    and "\<exists>e. exec (Call sender val now (CastVote g b) a k ns) t = Inl e"
    and "\<exists>e. exec (Call sender val now (SubmitProof g uri) a k ns) t = Inl e"
    and "\<exists>e. exec (Call sender val now (CreateGoal dl cat descr) a k ns) t = Inl e"
  using assms
  by (simp_all add: withdrawStake_def resolveVote_def vote_def submitProof_def createGoal_def)

lemma reenter_withdrawals_locked:
  assumes "locked t"
    and "\<forall>c\<in>set cs. \<exists>sender val now g a k ns. c = Call sender val now (WithdrawStake g) a k ns"
  shows "reenter exec cs t = t"
  using assms(2)
proof (induction cs)
  case Nil
  show ?case by simp
next
  case (Cons c cs)
  then obtain sender val now g a k ns where c: "c = Call sender val now (WithdrawStake g) a k ns"
    by auto
  obtain e where "exec c t = Inl e"
    using nonReentrant_while_locked(1) [OF assms(1)] c by blast
  then have "settle (exec c t) t = t"
    by (simp add: settle_def)
  moreover have "reenter exec (c # cs) t = reenter exec cs (settle (exec c t) t)"
    by (simp add: reenter_def)
  ultimately show ?case
    using Cons by simp
qed

lemma withdraw_unlock:
  "\<not> locked s \<Longrightarrow>
   (emit e (transfer x y n (s\<lparr>locked := True, goals := G, totalStaked := T\<rparr>)))\<lparr>locked := False\<rparr>
     = emit e (transfer x y n (s\<lparr>goals := G, totalStaked := T\<rparr>))"
  by (cases s) (simp add: emit_def transfer_def Let_def)

lemma withdrawStake_callee_view:
  assumes "\<forall>t. locked t \<and> stakeAmount (goals t g) = 0 \<and>
             totalStaked t = totalStaked s - unat (stakeAmount (goals s g)) \<longrightarrow> nest t = nest' t"
  shows "withdrawStake a nest u g s = withdrawStake a nest' u g s"
proof -
  let ?b = "s\<lparr>locked := True,
      goals := (goals s)(g := (goals s g)\<lparr>stakeAmount := 0\<rparr>),
      totalStaked := totalStaked s - unat (stakeAmount (goals s g))\<rparr>"
  let ?t = "transfer (self s) u (unat (stakeAmount (goals s g))) ?b"
  have "nest ?t = nest' ?t"
    using assms by simp
  then show ?thesis
    by (simp add: withdrawStake_def call_value_def Let_def)
qed

lemma nft_reenter_rel:
  assumes refl: "\<And>s. R s s"
    and trans: "\<And>a b c. R a b \<Longrightarrow> R b c \<Longrightarrow> R a c"
    and ih: "\<And>c t t'. c \<in> set cs \<Longrightarrow> ex c t = Inr t' \<Longrightarrow> R t t'"
  shows "R s (nft_reenter ex cs s)"
  using ih
proof (induction cs arbitrary: s)
  case Nil
  show ?case by (simp add: nft_reenter_def refl)
next
  case (Cons c cs)
  have first: "R s (nft_settle (ex c s) s)"
    using Cons.prems [of c s] by (cases "ex c s") (auto simp: nft_settle_def refl)
  have rest: "R (nft_settle (ex c s) s) (nft_reenter ex cs (nft_settle (ex c s) s))"
    by (rule Cons.IH) (use Cons.prems in auto)
  have "nft_reenter ex (c # cs) s = nft_reenter ex cs (nft_settle (ex c s) s)"
    by (simp add: nft_reenter_def)
  with trans [OF first rest] show ?case by simp
qed

lemma nft_exec_rel:
  assumes refl: "\<And>s. R s s"
    and trans: "\<And>a b c. R a b \<Longrightarrow> R b c \<Longrightarrow> R a c"
    and step: "\<And>nest a sender now f s s'.
        (\<And>t. R t (nest t)) \<Longrightarrow> sender \<noteq> 0 \<Longrightarrow>
        nft_dispatch a nest sender now f s = Inr s' \<Longrightarrow> R s s'"
  shows "real_sender c \<Longrightarrow> nft_exec c s = Inr s' \<Longrightarrow> R s s'"
proof (induction c s arbitrary: s' rule: nft_exec.induct)
  case (1 sender now f a nested s)
  have nest: "R t (nft_reenter nft_exec nested t)" for t
  proof (rule nft_reenter_rel [where R = R])
    show "\<And>u. R u u" by (rule refl)
    show "\<And>u v w. R u v \<Longrightarrow> R v w \<Longrightarrow> R u w" by (rule trans)
    show "\<And>c u u'. c \<in> set nested \<Longrightarrow> nft_exec c u = Inr u' \<Longrightarrow> R u u'"
      using "1.IH" "1.prems"(1) by simp
  qed
  show ?case
    by (rule step [OF nest]) (use "1.prems" in auto)
qed

lemma update_soulbound:
  "owners s i \<noteq> 0 \<Longrightarrow> to \<noteq> 0 \<Longrightarrow> update to i auth s = Inl SoulboundNoTransfer"
  by (simp add: update_def)

lemma transferFrom_from_holder:
  assumes "from \<noteq> 0"
  shows "\<exists>e. transferFrom sender from to i s = Inl e"
  using assms
  by (auto simp: transferFrom_def update_def super_update_def Let_def split: if_splits)

lemma transferFrom_clean:
  assumes "clean s" and "sender \<noteq> 0"
  shows "\<exists>e. transferFrom sender from to i s = Inl e"
  using assms
  by (auto simp: transferFrom_def update_def super_update_def isAuthorized_def clean_def Let_def
      split: if_splits)

lemma stays_burned_refl: "stays_burned s s"
  by (simp add: stays_burned_def)

lemma stays_burned_trans: "stays_burned a b \<Longrightarrow> stays_burned b c \<Longrightarrow> stays_burned a c"
  by (auto simp: stays_burned_def)

lemma log_fields [simp]:
  "tokenCounter (log e s) = tokenCounter s"
  "owners (log e s) = owners s"
  "holdings (log e s) = holdings s"
  "tokenApprovals (log e s) = tokenApprovals s"
  "operatorApprovals (log e s) = operatorApprovals s"
  "stakeContract (log e s) = stakeContract s"
  "badge_events (log e s) = badge_events s @ [e]"
  by (simp_all add: log_def)

lemma mint_fresh:
  assumes "owners s i = 0" and "to \<noteq> 0"
  shows "mint to i s =
     Inr (log (Transfer 0 to i)
           (s\<lparr>holdings := (holdings s)(to := (holdings s to + 1) mod 2 ^ 256),
              owners := (owners s)(i := to)\<rparr>))"
  using assms by (simp add: mint_def update_def super_update_def Let_def)

lemma mint_needs_free_id: "mint to i s = Inr s' \<Longrightarrow> owners s i = 0 \<and> to \<noteq> 0"
  by (auto simp: mint_def update_def super_update_def Let_def split: if_splits sum.splits)

lemma burn_token_owned:
  assumes "owners s i \<noteq> 0"
  shows "burn_token i s =
     Inr (log (Transfer (owners s i) 0 i)
           (s\<lparr>tokenApprovals := (tokenApprovals s)(i := 0),
              holdings := (holdings s)
                (owners s i := (holdings s (owners s i) + 2 ^ 256 - 1) mod 2 ^ 256),
              owners := (owners s)(i := 0)\<rparr>))"
  using assms by (simp add: burn_token_def update_def super_update_def Let_def)

lemma clean_cong:
  assumes "clean s" and "tokenCounter t = tokenCounter s" and "owners t = owners s"
    and "tokenApprovals t = tokenApprovals s" and "operatorApprovals t = operatorApprovals s"
  shows "clean t" and "stays_burned s t"
  using assms by (simp_all add: clean_def stays_burned_def)

lemma mintBadge_clean:
  assumes nest: "\<And>t. clean t \<longrightarrow> clean (nest t) \<and> stays_burned t (nest t)"
    and ok: "mintBadge a nest sender now usr goalId cat streak s = Inr s'"
    and cl: "clean s"
  shows "clean s' \<and> stays_burned s s'"
proof -
  let ?i = "tokenCounter s"
  let ?s0 = "s\<lparr>tokenCounter := ?i + 1\<rparr>"
  let ?m = "log (Transfer 0 usr ?i)
              (?s0\<lparr>holdings := (holdings ?s0)(usr := (holdings ?s0 usr + 1) mod 2 ^ 256),
                  owners := (owners ?s0)(?i := usr)\<rparr>)"
  from ok obtain s1 where sm: "safeMint a nest usr ?i ?s0 = Inr s1"
    and s': "tokenCounter s' = tokenCounter s1" "owners s' = owners s1"
      "tokenApprovals s' = tokenApprovals s1" "operatorApprovals s' = operatorApprovals s1"
    by (auto simp: mintBadge_def Let_def split: if_splits sum.splits)
  from sm obtain m where m: "mint usr ?i ?s0 = Inr m" and s1: "s1 = nest m"
    by (auto simp: safeMint_def split: sum.splits if_splits)
  have free: "owners ?s0 ?i = 0"
    using cl by (simp add: clean_def)
  have "usr \<noteq> 0"
    using mint_needs_free_id [OF m] by simp
  from mint_fresh [OF free this] m have m_eq: "m = ?m"
    by simp
  have clean_m: "clean m" and burned_m: "stays_burned s m"
    using cl \<open>usr \<noteq> 0\<close> unfolding m_eq by (auto simp: clean_def stays_burned_def)
  from nest [of m] clean_m have clean_s1: "clean s1" and burned_s1: "stays_burned m s1"
    unfolding s1 by simp_all
  from clean_cong [OF clean_s1 s'] have "clean s'" "stays_burned s1 s'"
    by simp_all
  with burned_m burned_s1 show ?thesis
    by (blast intro: stays_burned_trans)
qed

lemma burn_clean:
  assumes ok: "burn sender i s = Inr s'" and cl: "clean s"
  shows "clean s' \<and> stays_burned s s' \<and> owners s' i = 0 \<and> i < tokenCounter s"
proof -
  let ?cat = "badge_category (badgeMetadata s i)"
  let ?s0 = "s\<lparr>userBadgeCount := (userBadgeCount s)(sender := userBadgeCount s sender - 1),
               categoryBadgeCount := (categoryBadgeCount s)
                 (sender := (categoryBadgeCount s sender)
                    (?cat := categoryBadgeCount s sender ?cat - 1))\<rparr>"
  from ok have own: "owners s i \<noteq> 0"
    by (auto simp: burn_def ownerOf_def split: if_splits)
  then have below: "i < tokenCounter s"
    using cl by (auto simp: clean_def not_le [symmetric])
  from ok own obtain s1 where b: "burn_token i ?s0 = Inr s1" and s': "s' = log (BadgeBurned sender i) s1"
    by (auto simp: burn_def ownerOf_def Let_def split: if_splits sum.splits)
  have "owners ?s0 i \<noteq> 0"
    using own by simp
  from burn_token_owned [OF this] b
  have s1: "s1 = log (Transfer (owners ?s0 i) 0 i)
           (?s0\<lparr>tokenApprovals := (tokenApprovals ?s0)(i := 0),
              holdings := (holdings ?s0)
                (owners ?s0 i := (holdings ?s0 (owners ?s0 i) + 2 ^ 256 - 1) mod 2 ^ 256),
              owners := (owners ?s0)(i := 0)\<rparr>)"
    by simp
  show ?thesis
    using cl below unfolding s' s1 by (auto simp: clean_def stays_burned_def)
qed

lemma nft_dispatch_clean:
  assumes nest: "\<And>t. clean t \<longrightarrow> clean (nest t) \<and> stays_burned t (nest t)"
    and sender: "sender \<noteq> 0"
    and ok: "nft_dispatch a nest sender now f s = Inr s'"
    and cl: "clean s"
  shows "clean s' \<and> stays_burned s s'"
proof (cases f)
  case (MintBadge usr goalId cat streak)
  with ok mintBadge_clean [OF nest _ cl] show ?thesis by simp
next
  case (Burn i)
  with ok burn_clean [OF _ cl] show ?thesis by simp
next
  case (TransferFrom src dst i)
  with ok transferFrom_clean [OF cl sender, of src dst i] show ?thesis by auto
next
  case (SafeTransferFrom src dst i)
  with ok transferFrom_clean [OF cl sender, of src dst i] show ?thesis
    by (auto simp: safeTransferFrom_def)
next
  case (Approve dst i)
  with ok cl show ?thesis
    by (auto simp: approve_def clean_def stays_burned_def split: if_splits)
next
  case (SetApprovalForAll operator approved)
  with ok cl sender show ?thesis
    by (auto simp: setApprovalForAll_def clean_def stays_burned_def split: if_splits)
qed (use ok cl in \<open>auto simp: setBaseURI_def setStakeContract_def badge_transferOwnership_def
      badge_renounceOwnership_def clean_def stays_burned_def split: if_splits\<close>)

lemma nft_exec_clean:
  assumes "real_sender c" and "nft_exec c s = Inr s'" and "clean s"
  shows "clean s'" and "stays_burned s s'"
proof -
  have "clean s \<longrightarrow> clean s' \<and> stays_burned s s'"
  proof (rule nft_exec_rel [where R = "\<lambda>u u'. clean u \<longrightarrow> clean u' \<and> stays_burned u u'",
        OF _ _ _ assms(1,2)])
    show "\<And>u. clean u \<longrightarrow> clean u \<and> stays_burned u u"
      by (simp add: stays_burned_refl)
    show "\<And>u v w. clean u \<longrightarrow> clean v \<and> stays_burned u v \<Longrightarrow>
        clean v \<longrightarrow> clean w \<and> stays_burned v w \<Longrightarrow> clean u \<longrightarrow> clean w \<and> stays_burned u w"
      by (blast intro: stays_burned_trans)
    show "clean u \<longrightarrow> clean u' \<and> stays_burned u u'"
      if "\<And>t. clean t \<longrightarrow> clean (nest t) \<and> stays_burned t (nest t)" and "sender \<noteq> 0"
        and "nft_dispatch a nest sender now f u = Inr u'"
      for nest a sender now f u u'
      using nft_dispatch_clean [OF that] by blast
  qed
  with assms(3) show "clean s'" and "stays_burned s s'"
    by simp_all
qed

lemma nft_run_clean:
  assumes "\<forall>c\<in>set cs. real_sender c" and "clean s"
  shows "clean (nft_run cs s) \<and> stays_burned s (nft_run cs s)"
  using assms
proof (induction cs arbitrary: s)
  case Nil
  then show ?case by (simp add: nft_run_def stays_burned_refl)
next
  case (Cons c cs)
  let ?t = "nft_settle (nft_exec c s) s"
  have t: "clean ?t \<and> stays_burned s ?t"
    using Cons.prems nft_exec_clean [of c s]
    by (cases "nft_exec c s") (auto simp: nft_settle_def stays_burned_refl)
  with Cons.IH [of ?t] Cons.prems(1)
  have "clean (nft_run cs ?t) \<and> stays_burned ?t (nft_run cs ?t)"
    by simp
  with t show ?case
    by (auto simp: nft_run_def intro: stays_burned_trans)
qed

lemma badge_constructor_clean: "clean (badge_constructor deployer stake)"
  by (simp add: clean_def badge_constructor_def)

lemma nft_reenter_Nil [simp]: "nft_reenter ex [] s = s"
  by (simp add: nft_reenter_def)

lemma demo_badges_fields:
  "tokenCounter demo_badges = 1"
  "owners demo_badges 0 = 2"
  "holdings demo_badges 2 = 1"
  "userBadgeCount demo_badges 2 = 1"
  "categoryBadgeCount demo_badges 2 0 = 1"
  "badge_category (badgeMetadata demo_badges 0) = 0"
  by (simp_all add: demo_badges_def nft_run_def nft_settle_def mintBadge_def safeMint_def
      mint_def update_def super_update_def badge_constructor_def uint256_max_def log_def Let_def)

lemma demo_burned_exec: "nft_exec (NftCall 2 3000 (Burn 0) True []) demo_badges = Inr demo_burned"
  by (simp add: demo_burned_def nft_settle_def burn_def ownerOf_def burn_token_def update_def
      super_update_def demo_badges_fields Let_def)

lemma totals_emit [simp]:
  "totalDeposited (emit e s) = totalDeposited s + deposit_of e"
  "totalWithdrawn (emit e s) = totalWithdrawn s + withdrawal_of e"
  "totalDonated (emit e s) = totalDonated s + donation_of e"
  "donatedFor (emit e s) g = donatedFor s g + donation_for g e"
  "recorded (emit e s) = recorded s"
  "deposits_small (emit e s) \<longleftrightarrow> deposits_small s \<and> deposit_of e < 2 ^ 96"
  by (simp_all add: totalDeposited_def totalWithdrawn_def totalDonated_def donatedFor_def
      recorded_def deposits_small_def emit_def)

lemma totals_cong:
  assumes "events t = events s"
  shows "totalDeposited t = totalDeposited s" "totalWithdrawn t = totalWithdrawn s"
    "totalDonated t = totalDonated s" "donatedFor t g = donatedFor s g"
    "deposits_small t = deposits_small s"
  using assms
  by (simp_all add: totalDeposited_def totalWithdrawn_def totalDonated_def donatedFor_def
      deposits_small_def)

lemma recorded_cong:
  assumes "goalCounter t = goalCounter s"
    and "\<And>g. g < goalCounter s \<Longrightarrow> stakeAmount (goals t g) = stakeAmount (goals s g)"
  shows "recorded t = recorded s"
  using assms by (simp add: recorded_def)

lemma recorded_withdrawn:
  assumes "g < goalCounter s"
  shows "recorded (s\<lparr>goals := (goals s)(g := (goals s g)\<lparr>stakeAmount := 0\<rparr>)\<rparr>)
           + unat (stakeAmount (goals s g)) = recorded s"
proof -
  let ?f = "\<lambda>h. unat (stakeAmount (goals s h))"
  let ?f' = "\<lambda>h. unat (stakeAmount (((goals s)(g := (goals s g)\<lparr>stakeAmount := 0\<rparr>)) h))"
  have fin: "finite {..<goalCounter s}" and mem: "g \<in> {..<goalCounter s}"
    using assms by simp_all
  have "sum ?f {..<goalCounter s} = ?f g + sum ?f ({..<goalCounter s} - {g})"
    by (rule sum.remove [OF fin mem])
  moreover have "sum ?f' {..<goalCounter s} = ?f' g + sum ?f' ({..<goalCounter s} - {g})"
    by (rule sum.remove [OF fin mem])
  moreover have "sum ?f' ({..<goalCounter s} - {g}) = sum ?f ({..<goalCounter s} - {g})"
    by (rule sum.cong) auto
  ultimately show ?thesis
    by (simp add: recorded_def)
qed

lemma recorded_created:
  "recorded (s\<lparr>goalCounter := goalCounter s + 1,
       goals := (goals s)(goalCounter s := x)\<rparr>) = recorded s + unat (stakeAmount x)"
  by (simp add: recorded_def)

lemma deposits_small_append:
  "events s' = events s @ rest \<Longrightarrow> deposits_small s' \<Longrightarrow> deposits_small s"
  by (simp add: deposits_small_def)

lemma donations_sound_cong:
  assumes "donations_sound s" and "charityBasisPoints t = charityBasisPoints s"
    and "goalCounter t = goalCounter s" and "events t = events s"
    and "\<And>g. g < goalCounter s \<Longrightarrow> status (goals t g) = status (goals s g)"
    and "\<And>g. g < goalCounter s \<Longrightarrow> status (goals s g) = 2 \<Longrightarrow>
           stakeAmount (goals t g) = stakeAmount (goals s g)"
  shows "donations_sound t"
proof -
  have d: "donatedFor t g = donatedFor s g" for g
    using assms(4) by (rule totals_cong)
  have td: "totalDonated t = totalDonated s"
    using assms(4) by (rule totals_cong)
  show ?thesis
    unfolding donations_sound_def
  proof (intro conjI allI impI)
    show "charityBasisPoints t \<le> 10000"
      using assms(1,2) by (simp add: donations_sound_def)
    show "donatedFor t g \<le> unat (stakeAmount (goals t g))"
      if "g < goalCounter t" "status (goals t g) = 2" for g
      using that assms(1,3,5,6) by (simp add: donations_sound_def d)
    show "donatedFor t g = 0" if "\<not> (g < goalCounter t \<and> status (goals t g) = 2)" for g
      using that assms(1,3,5) by (auto simp: donations_sound_def d)
    show "status (goals t g) = 0 \<or> status (goals t g) = 1 \<or> status (goals t g) = 2"
      if "g < goalCounter t" for g
      using that assms(1,3,5) by (auto simp: donations_sound_def)
    show "totalDonated t = (\<Sum>g<goalCounter t. donatedFor t g)"
      using assms(1,3) by (simp add: donations_sound_def d td)
  qed
qed

lemma accounted_refl: "accounted s s"
  by (simp add: accounted_def lifecycle_refl)

lemma accounted_trans:
  assumes ab: "accounted a b" and bc: "accounted b c"
  shows "accounted a c"
proof -
  have life: "lifecycle a b" "lifecycle b c"
    using ab bc by (simp_all add: accounted_def)
  have l: "lifecycle a c"
    using life by (rule lifecycle_trans)
  obtain r1 r2 where ev: "events b = events a @ r1" "events c = events b @ r2"
    using ab bc by (auto simp: accounted_def)
  have p: "\<exists>rest. events c = events a @ rest"
    using ev by simp
  have f: "donatedFor c g = donatedFor a g"
    if "g < goalCounter a" "status (goals a g) \<noteq> 0" for g
  proof -
    have "g < goalCounter b" "status (goals b g) \<noteq> 0"
      using lifecycle_terminal(1,2) [OF life(1) that] that(2) by simp_all
    then have "donatedFor c g = donatedFor b g"
      using bc by (simp add: accounted_def)
    moreover have "donatedFor b g = donatedFor a g"
      using ab that by (simp add: accounted_def)
    ultimately show ?thesis by simp
  qed
  have e: "recorded c + totalWithdrawn c + totalDeposited a =
        recorded a + totalWithdrawn a + totalDeposited c" if "deposits_small c"
  proof -
    have "deposits_small b"
      using deposits_small_append [OF ev(2) that] .
    then have "recorded b + totalWithdrawn b + totalDeposited a =
        recorded a + totalWithdrawn a + totalDeposited b"
      using ab by (simp add: accounted_def)
    moreover have "recorded c + totalWithdrawn c + totalDeposited b =
        recorded b + totalWithdrawn b + totalDeposited c"
      using bc that by (simp add: accounted_def)
    ultimately show ?thesis by linarith
  qed
  have d: "donations_sound c" if "donations_sound a"
    using ab bc that by (simp add: accounted_def)
  show ?thesis
    unfolding accounted_def using l p f e d by blast
qed

lemma accounted_cong:
  assumes "accounted s t" and "self t' = self t" and "goalCounter t' = goalCounter t"
    and "goals t' = goals t" and "votes t' = votes t" and "events t' = events t"
    and "charityBasisPoints t' = charityBasisPoints t"
  shows "accounted s t'"
proof -
  have "lifecycle s t'"
    using assms by (simp add: accounted_def lifecycle_def)
  moreover have "donations_sound t'" if "donations_sound t"
    by (rule donations_sound_cong [OF that]) (simp_all add: assms)
  moreover have "recorded t' = recorded t"
    by (rule recorded_cong) (simp_all add: assms)
  ultimately show ?thesis
    using assms(1) totals_cong [OF assms(6)]
    by (simp add: accounted_def assms(3,6))
qed

lemma accounted_transfer: "accounted s t \<Longrightarrow> accounted s (transfer a b n t)"
  by (rule accounted_cong) simp_all

lemma accounted_locked: "accounted s t \<Longrightarrow> accounted s (t\<lparr>locked := b\<rparr>)"
  by (rule accounted_cong) simp_all

lemma donations_sound_emit:
  assumes "donations_sound t" and "donation_of e = 0" and "\<And>g. donation_for g e = 0"
  shows "donations_sound (emit e t)"
proof -
  have "donatedFor (emit e t) g = donatedFor t g" for g
    using assms(3) by simp
  moreover have "totalDonated (emit e t) = totalDonated t"
    using assms(2) by simp
  ultimately show ?thesis
    using assms(1) unfolding donations_sound_def by (simp del: totals_emit)
qed

lemma accounted_emit:
  assumes "accounted s t" and "neutral e"
  shows "accounted s (emit e t)"
proof -
  have n: "deposit_of e = 0" "withdrawal_of e = 0" "donation_of e = 0" "\<And>g. donation_for g e = 0"
    using assms(2) by (simp_all add: neutral_def)
  have "lifecycle s (emit e t)"
    using assms(1) by (simp add: accounted_def lifecycle_emit)
  moreover have "donations_sound (emit e t)" if "donations_sound s"
    using assms(1) that n by (simp add: accounted_def donations_sound_emit)
  ultimately show ?thesis
    using assms(1) n by (auto simp: accounted_def)
qed

lemma neutral_events [simp]:
  "neutral (ProofSubmitted g u uri)" "neutral (AIScoredProof g sc msg)"
  "neutral (VoteStarted g d)" "neutral (VoteCast g u b)" "neutral (VoteResolved g b y n)"
  "neutral (GoalResolved g st)" "neutral (GoalVerified g u sc b)"
  "neutral (BadgeMintedForGoal g u k)" "neutral (OwnershipTransferred x1 x2)"
  by (simp_all add: neutral_def)

lemma accounted_resolved:
  assumes g: "g < goalCounter s" and active: "status (goals s g) = 0"
    and st: "status (goals m g) = 1 \<or> status (goals m g) = 2"
    and same: "self m = self s" "goalCounter m = goalCounter s" "events m = events s"
      "charityBasisPoints m = charityBasisPoints s"
      "\<And>h. h \<noteq> g \<Longrightarrow> goals m h = goals s h" "\<And>h. h \<noteq> g \<Longrightarrow> votes m h = votes s h"
      "user (goals m g) = user (goals s g)" "stakeAmount (goals m g) = stakeAmount (goals s g)"
  shows "accounted s m"
proof -
  have stakes: "stakeAmount (goals m h) = stakeAmount (goals s h)" for h
    using same(5,8) by (cases "h = g") simp_all
  have l: "lifecycle s m"
    unfolding lifecycle_def using active same stakes
    by (auto simp: same(1,2)) (metis)+
  have d: "donatedFor m h = donatedFor s h" for h
    using same(3) by (rule totals_cong)
  have r: "recorded m = recorded s"
    by (rule recorded_cong) (simp_all add: same(2) stakes)
  have sound: "donations_sound m" if snd: "donations_sound s"
    unfolding donations_sound_def
  proof (intro conjI allI impI)
    show "charityBasisPoints m \<le> 10000"
      using snd same(4) by (simp add: donations_sound_def)
    have zero: "donatedFor s g = 0"
      using snd active by (simp add: donations_sound_def)
    show "donatedFor m h \<le> unat (stakeAmount (goals m h))"
      if "h < goalCounter m" "status (goals m h) = 2" for h
      using that snd same(2,5) zero by (cases "h = g") (simp_all add: d stakes donations_sound_def)
    show "donatedFor m h = 0" if "\<not> (h < goalCounter m \<and> status (goals m h) = 2)" for h
      using that snd same(2,5) zero by (cases "h = g") (auto simp: d donations_sound_def)
    show "status (goals m h) = 0 \<or> status (goals m h) = 1 \<or> status (goals m h) = 2"
      if "h < goalCounter m" for h
      using that snd same(2,5) st by (cases "h = g") (auto simp: donations_sound_def)
    show "totalDonated m = (\<Sum>h<goalCounter m. donatedFor m h)"
      using snd totals_cong(3) [OF same(3)] by (simp add: donations_sound_def d same(2))
  qed
  show ?thesis
    unfolding accounted_def
    using l d r sound totals_cong [OF same(3)] by (simp add: same(3))
qed

lemma onGoalCompleted_accounted:
  assumes nest: "\<And>t. accounted t (nest t)"
    and ok: "onGoalCompleted k nest g m = Inr s'"
  shows "accounted m s'"
proof -
  let ?u = "user (goals m g)"
  let ?s1 = "m\<lparr>userStreaks := (userStreaks m)(?u := userStreaks m ?u + 1)\<rparr>"
  let ?s2 = "if userStreaks ?s1 ?u > userHighestStreak ?s1 ?u
             then ?s1\<lparr>userHighestStreak := (userHighestStreak ?s1)(?u := userStreaks ?s1 ?u)\<rparr>
             else ?s1"
  have s2: "accounted m ?s2"
    by (rule accounted_cong [OF accounted_refl]) simp_all
  from ok consider "s' = ?s2"
    | tokenId where "s' = emit (BadgeMintedForGoal g (user (goals (nest ?s2) g)) tokenId) (nest ?s2)"
    by (auto simp: onGoalCompleted_def call_mintBadge_def Let_def split: if_splits mint_answer.splits)
  then show ?thesis
  proof cases
    case 1
    with s2 show ?thesis by simp
  next
    case 2
    have "accounted m (nest ?s2)"
      using s2 by (rule accounted_trans) (rule nest)
    then show ?thesis
      unfolding 2 by (rule accounted_emit) simp
  qed
qed

lemma share_le_stake:
  assumes "bps \<le> (10000 :: nat)"
  shows "x * bps div 10000 \<le> x"
proof -
  have "x * bps \<le> x * 10000"
    using assms by simp
  then have "x * bps div 10000 \<le> x * 10000 div 10000"
    by (rule div_le_mono)
  then show ?thesis by simp
qed

lemma sum_add_at:
  assumes "g < (n :: nat)"
  shows "(\<Sum>h<n. f h + (if h = g then (x :: nat) else 0)) = (\<Sum>h<n. f h) + x"
proof -
  have "(\<Sum>h<n. f h + (if h = g then x else 0)) = (\<Sum>h<n. f h) + (\<Sum>h<n. if h = g then x else 0)"
    by (rule sum.distrib)
  moreover have "(\<Sum>h<n. if h = g then x else 0) = x"
    using assms by simp
  ultimately show ?thesis by simp
qed

lemma onGoalFailed_accounted:
  assumes nest: "\<And>t. accounted t (nest t)"
    and acc: "accounted s m" and ev: "events m = events s"
    and g: "g < goalCounter s" and active: "status (goals s g) = 0"
    and failed: "status (goals m g) = 2"
    and ok: "onGoalFailed a nest g m = Inr s'"
  shows "accounted s s'"
proof -
  let ?m1 = "m\<lparr>userStreaks := (userStreaks m)(user (goals m g) := 0)\<rparr>"
  let ?amt = "unat (stakeAmount (goals m g)) * charityBasisPoints m div 10000"
  let ?t = "transfer (self m) (charityAddress m) ?amt ?m1"
  let ?n = "nest ?t"
  have m1: "accounted s ?m1"
    by (rule accounted_cong [OF acc]) simp_all
  from ok consider "s' = ?m1" | "s' = emit (CharityDonation g (charityAddress ?n) ?amt) ?n"
    by (auto simp: onGoalFailed_def call_value_def Let_def split: if_splits)
  then show ?thesis
  proof cases
    case 1
    with m1 show ?thesis by simp
  next
    case 2
    have st: "accounted s ?t"
      using m1 by (rule accounted_transfer)
    have tn: "accounted ?t ?n"
      by (rule nest)
    have sn: "accounted s ?n"
      using st tn by (rule accounted_trans)
    have gm: "g < goalCounter m"
      using acc g by (auto simp: accounted_def lifecycle_def)
    have t_facts: "g < goalCounter ?t" "status (goals ?t g) = 2" "events ?t = events s"
      "stakeAmount (goals ?t g) = stakeAmount (goals m g)"
      using gm failed ev by simp_all
    have life_tn: "lifecycle ?t ?n"
      using tn by (simp add: accounted_def)
    have n_facts: "g < goalCounter ?n" "status (goals ?n g) = 2"
      "stakeAmount (goals ?n g) = stakeAmount (goals m g)"
      using life_tn t_facts(1,2,4) by (auto simp: lifecycle_def)
    have don_n: "donatedFor ?n g = donatedFor s g"
    proof -
      have "donatedFor ?n g = donatedFor ?t g"
        using tn t_facts(1,2) by (simp add: accounted_def)
      also have "\<dots> = donatedFor s g"
        using t_facts(3) by (rule totals_cong)
      finally show ?thesis .
    qed
    obtain rest where rest: "events ?n = events s @ rest"
      using sn by (auto simp: accounted_def)
    have l: "lifecycle s s'"
      unfolding 2 using sn by (simp add: accounted_def lifecycle_emit)
    have p: "\<exists>r. events s' = events s @ r"
      unfolding 2 using rest by simp
    have f: "donatedFor s' h = donatedFor s h"
      if "h < goalCounter s" "status (goals s h) \<noteq> 0" for h
    proof -
      have "h \<noteq> g"
        using that(2) active by auto
      then have "donatedFor s' h = donatedFor ?n h"
        unfolding 2 by simp
      also have "\<dots> = donatedFor s h"
        using sn that by (simp add: accounted_def)
      finally show ?thesis .
    qed
    have e: "recorded s' + totalWithdrawn s' + totalDeposited s =
        recorded s + totalWithdrawn s + totalDeposited s'" if "deposits_small s'"
    proof -
      have "deposits_small ?n"
        using that unfolding 2 by simp
      then have "recorded ?n + totalWithdrawn ?n + totalDeposited s =
        recorded s + totalWithdrawn s + totalDeposited ?n"
        using sn by (simp add: accounted_def)
      then show ?thesis
        unfolding 2 by simp
    qed
    have d: "donations_sound s'" if snd: "donations_sound s"
    proof -
      have sound_n: "donations_sound ?n" and sound_m: "donations_sound m"
        using sn acc snd by (simp_all add: accounted_def)
      have zero: "donatedFor ?n g = 0"
        using don_n snd active by (simp add: donations_sound_def)
      have "charityBasisPoints m \<le> 10000"
        using sound_m by (simp add: donations_sound_def)
      then have share: "?amt \<le> unat (stakeAmount (goals m g))"
        by (rule share_le_stake)
      have each: "donatedFor s' h = donatedFor ?n h + (if h = g then ?amt else 0)" for h
        unfolding 2 by simp
      show ?thesis
        unfolding donations_sound_def
      proof (intro conjI allI impI)
        show "charityBasisPoints s' \<le> 10000"
          unfolding 2 using sound_n by (simp add: donations_sound_def)
        show "donatedFor s' h \<le> unat (stakeAmount (goals s' h))"
          if "h < goalCounter s'" "status (goals s' h) = 2" for h
        proof (cases "h = g")
          case True
          then show ?thesis
            using zero share n_facts(3) by (simp add: each) (simp add: 2)
        next
          case False
          then show ?thesis
            using that sound_n by (simp add: each) (simp add: 2 donations_sound_def)
        qed
        show "donatedFor s' h = 0" if "\<not> (h < goalCounter s' \<and> status (goals s' h) = 2)" for h
        proof (cases "h = g")
          case True
          with that n_facts(1,2) show ?thesis by (simp add: 2)
        next
          case False
          then show ?thesis
            using that sound_n by (simp add: each) (simp add: 2 donations_sound_def)
        qed
        show "status (goals s' h) = 0 \<or> status (goals s' h) = 1 \<or> status (goals s' h) = 2"
          if "h < goalCounter s'" for h
          using that sound_n by (simp add: 2 donations_sound_def)
        have "totalDonated s' = totalDonated ?n + ?amt"
          unfolding 2 by simp
        also have "\<dots> = (\<Sum>h<goalCounter ?n. donatedFor ?n h) + ?amt"
          using sound_n by (simp add: donations_sound_def)
        also have "\<dots> = (\<Sum>h<goalCounter ?n. donatedFor ?n h + (if h = g then ?amt else 0))"
          using sum_add_at [OF n_facts(1)] by simp
        also have "\<dots> = (\<Sum>h<goalCounter s'. donatedFor s' h)"
          by (simp add: each) (simp add: 2)
        finally show "totalDonated s' = (\<Sum>h<goalCounter s'. donatedFor s' h)" .
      qed
    qed
    show ?thesis
      unfolding accounted_def using l p f e d by blast
  qed
qed

lemma setAIScore_accounted:
  assumes nest: "\<And>t. accounted t (nest t)"
    and ok: "setAIScore a k nest sender now g score s = Inr s'"
  shows "accounted s s'"
proof -
  let ?s1 = "s\<lparr>goals := (goals s)(g := (goals s g)\<lparr>aiScore := score\<rparr>)\<rparr>"
  from ok have g: "g < goalCounter s" and st: "status (goals s g) = 0"
    by (auto simp: setAIScore_def split: if_splits)
  have mid: "accounted s (set_status g x ?s1)" if "x = 1 \<or> x = 2" for x
    by (rule accounted_resolved [OF g st]) (use that in \<open>simp_all add: set_status_def\<close>)
  have s1: "accounted s ?s1"
    unfolding accounted_def
  proof (intro conjI allI impI)
    show "lifecycle s ?s1"
      using g st by (rule lifecycle_aiScore)
    show "donations_sound ?s1" if "donations_sound s"
      by (rule donations_sound_cong [OF that]) simp_all
    show "recorded ?s1 + totalWithdrawn ?s1 + totalDeposited s =
        recorded s + totalWithdrawn s + totalDeposited ?s1"
      using recorded_cong [of ?s1 s] totals_cong [of ?s1 s] by simp
  qed (simp_all add: donatedFor_def)
  from ok g st consider
      s2 where "onGoalCompleted k nest g (set_status g 1 ?s1) = Inr s2"
        "s' = emit (GoalVerified g sender score (score \<ge> 75))
               (emit (AIScoredProof g score ''AI verification complete'')
                 (emit (GoalResolved g 1) s2))"
    | s2 where "onGoalFailed a nest g (set_status g 2 ?s1) = Inr s2"
        "s' = emit (GoalVerified g sender score (score \<ge> 75))
               (emit (AIScoredProof g score ''AI verification complete'')
                 (emit (GoalResolved g 2) s2))"
    | "s' = emit (GoalVerified g sender score (score \<ge> 75))
               (emit (AIScoredProof g score ''AI verification complete'')
                 (emit (VoteStarted g (now + votingPeriod s)) ?s1))"
    by (auto simp: setAIScore_def Let_def split: if_splits sum.splits)
  then show ?thesis
  proof cases
    case 1
    have "accounted s s2"
      by (rule accounted_trans [OF mid onGoalCompleted_accounted [OF nest 1(1)]]) simp
    then show ?thesis unfolding 1(2) by (intro accounted_emit) simp_all
  next
    case 2
    have "accounted s s2"
      by (rule onGoalFailed_accounted [OF nest mid _ g st _ 2(1)]) simp_all
    then show ?thesis unfolding 2(2) by (intro accounted_emit) simp_all
  next
    case 3
    from s1 show ?thesis unfolding 3 by (intro accounted_emit) simp_all
  qed
qed

lemma verifyGoal_accounted:
  assumes nest: "\<And>t. accounted t (nest t)"
    and ok: "verifyGoal a k nest sender g result s = Inr s'"
  shows "accounted s s'"
proof -
  let ?score = "if result then 100 else 0 :: 64 word"
  let ?s1 = "s\<lparr>goals := (goals s)(g := (goals s g)\<lparr>aiScore := ?score\<rparr>)\<rparr>"
  from ok have g: "g < goalCounter s" and st: "status (goals s g) = 0"
    by (auto simp: verifyGoal_def split: if_splits)
  have mid: "accounted s (set_status g x ?s1)" if "x = 1 \<or> x = 2" for x
    by (rule accounted_resolved [OF g st]) (use that in \<open>simp_all add: set_status_def\<close>)
  from ok g st consider
      s2 e2 where "onGoalCompleted k nest g (set_status g 1 ?s1) = Inr s2"
        "s' = emit (GoalVerified g sender ?score result) (emit (AIScoredProof g ?score e2)
                 (emit (GoalResolved g 1) s2))"
    | s2 e2 where "onGoalFailed a nest g (set_status g 2 ?s1) = Inr s2"
        "s' = emit (GoalVerified g sender ?score result) (emit (AIScoredProof g ?score e2)
                 (emit (GoalResolved g 2) s2))"
    by (auto simp: verifyGoal_def Let_def split: if_splits sum.splits)
  then show ?thesis
  proof cases
    case 1
    have "accounted s s2"
      by (rule accounted_trans [OF mid onGoalCompleted_accounted [OF nest 1(1)]]) simp
    then show ?thesis unfolding 1(2) by (intro accounted_emit) simp_all
  next
    case 2
    have "accounted s s2"
      by (rule onGoalFailed_accounted [OF nest mid _ g st _ 2(1)]) simp_all
    then show ?thesis unfolding 2(2) by (intro accounted_emit) simp_all
  qed
qed

lemma resolveVote_accounted:
  assumes nest: "\<And>t. accounted t (nest t)"
    and ok: "resolveVote a k nest g s = Inr s'"
  shows "accounted s s'"
proof -
  let ?pass = "yesVotes (votes s g) > noVotes (votes s g)"
  let ?s1 = "s\<lparr>locked := True, votes := (votes s)(g :=
                 (votes s g)\<lparr>resolved := True, passed := ?pass\<rparr>)\<rparr>"
  from ok have g: "g < goalCounter s" and st: "status (goals s g) = 0"
    by (auto simp: resolveVote_def Let_def split: if_splits)
  have mid: "accounted s (set_status g x ?s1)" if "x = 1 \<or> x = 2" for x
    by (rule accounted_resolved [OF g st]) (use that in \<open>simp_all add: set_status_def\<close>)
  from ok g st consider
      s2 y n where "onGoalCompleted k nest g (set_status g 1 ?s1) = Inr s2"
        "s' = (emit (GoalResolved g (status (goals s2 g)))
                (emit (VoteResolved g ?pass y n) s2))\<lparr>locked := False\<rparr>"
    | s2 y n where "onGoalFailed a nest g (set_status g 2 ?s1) = Inr s2"
        "s' = (emit (GoalResolved g (status (goals s2 g)))
                (emit (VoteResolved g ?pass y n) s2))\<lparr>locked := False\<rparr>"
    by (auto simp: resolveVote_def Let_def split: if_splits sum.splits)
  then show ?thesis
  proof cases
    case 1
    have "accounted s s2"
      by (rule accounted_trans [OF mid onGoalCompleted_accounted [OF nest 1(1)]]) simp
    then show ?thesis unfolding 1(2) by (intro accounted_locked accounted_emit) simp_all
  next
    case 2
    have "accounted s s2"
      by (rule onGoalFailed_accounted [OF nest mid _ g st _ 2(1)]) simp_all
    then show ?thesis unfolding 2(2) by (intro accounted_locked accounted_emit) simp_all
  qed
qed

lemma withdrawStake_accounted:
  assumes nest: "\<And>t. accounted t (nest t)"
    and ok: "withdrawStake a nest u g s = Inr s'"
  shows "accounted s s'"
proof -
  let ?amt = "unat (stakeAmount (goals s g))"
  let ?b = "s\<lparr>locked := True,
      goals := (goals s)(g := (goals s g)\<lparr>stakeAmount := 0\<rparr>),
      totalStaked := totalStaked s - ?amt\<rparr>"
  let ?t = "transfer (self s) u ?amt ?b"
  let ?n = "nest ?t"
  from ok have g: "g < goalCounter s" and st: "status (goals s g) = 1"
    and s': "s' = (emit (StakeWithdrawn u ?amt) ?n)\<lparr>locked := False\<rparr>"
    by (auto simp: withdrawStake_def call_value_def Let_def split: if_splits)
  have tn: "accounted ?t ?n"
    by (rule nest)
  have life_nest: "\<And>x. lifecycle x (nest x)"
    using nest by (simp add: accounted_def)
  have l: "lifecycle s s'"
    by (rule withdrawStake_lifecycle [OF life_nest ok])
  have ev_t: "events ?t = events s"
    by simp
  obtain rest where rest: "events ?n = events s @ rest"
    using tn by (auto simp: accounted_def)
  have p: "\<exists>r. events s' = events s @ r"
    unfolding s' using rest by simp
  have f: "donatedFor s' h = donatedFor s h"
    if "h < goalCounter s" "status (goals s h) \<noteq> 0" for h
  proof -
    have "h < goalCounter ?t" "status (goals ?t h) \<noteq> 0"
      using that by auto
    then have "donatedFor ?n h = donatedFor ?t h"
      using tn by (simp add: accounted_def)
    also have "\<dots> = donatedFor s h"
      using ev_t by (rule totals_cong)
    finally show ?thesis
      unfolding s' by (simp add: donatedFor_def emit_def)
  qed
  have rec_t: "recorded ?t + ?amt = recorded s"
    using recorded_withdrawn [OF g] by (simp add: recorded_def)
  have e: "recorded s' + totalWithdrawn s' + totalDeposited s =
        recorded s + totalWithdrawn s + totalDeposited s'" if "deposits_small s'"
  proof -
    have "deposits_small ?n"
      using that unfolding s' by (simp add: deposits_small_def emit_def)
    then have "recorded ?n + totalWithdrawn ?n + totalDeposited ?t =
        recorded ?t + totalWithdrawn ?t + totalDeposited ?n"
      using tn by (simp add: accounted_def)
    moreover have "totalDeposited ?t = totalDeposited s" "totalWithdrawn ?t = totalWithdrawn s"
      using totals_cong [OF ev_t] by simp_all
    moreover have "recorded s' = recorded ?n" "totalWithdrawn s' = totalWithdrawn ?n + ?amt"
      "totalDeposited s' = totalDeposited ?n"
      unfolding s' by (simp_all add: recorded_def totalWithdrawn_def totalDeposited_def emit_def)
    ultimately show ?thesis
      using rec_t by linarith
  qed
  have d: "donations_sound s'" if snd: "donations_sound s"
  proof -
    have "donations_sound ?t"
      by (rule donations_sound_cong [OF snd]) (use st in auto)
    then have "donations_sound ?n"
      using tn by (simp add: accounted_def)
    then have "donations_sound (emit (StakeWithdrawn u ?amt) ?n)"
      by (rule donations_sound_emit) simp_all
    then show ?thesis
      unfolding s' by (rule donations_sound_cong) simp_all
  qed
  show ?thesis
    unfolding accounted_def using l p f e d by blast
qed

lemma createGoal_accounted:
  assumes ok: "createGoal sender val now dl cat descr s = Inr s'"
  shows "accounted s s'"
proof -
  let ?goal = "(goals s (goalCounter s))\<lparr>user := sender, stakeAmount := of_nat val,
                     deadline := dl, createdAt := of_nat now, status := 0,
                     category := cat, description := descr\<rparr>"
  let ?s1 = "s\<lparr>goalCounter := goalCounter s + 1,
                    goals := (goals s)(goalCounter s := ?goal),
                    userGoals := (userGoals s)(sender := userGoals s sender @ [goalCounter s]),
                    totalStaked := totalStaked s + val\<rparr>"
  from ok have s': "s' = emit (GoalCreated (goalCounter s) sender val dl cat descr) ?s1"
    by (auto simp: createGoal_def Let_def split: if_splits)
  have l: "lifecycle s s'"
    by (rule createGoal_lifecycle [OF ok])
  have p: "\<exists>r. events s' = events s @ r"
    unfolding s' by simp
  have don: "donatedFor s' h = donatedFor s h" for h
    unfolding s' by (simp add: donatedFor_def)
  have rec: "recorded s' = recorded s + unat (of_nat val :: 96 word)"
    unfolding s' by (simp add: recorded_def)
  have e: "recorded s' + totalWithdrawn s' + totalDeposited s =
        recorded s + totalWithdrawn s + totalDeposited s'" if "deposits_small s'"
  proof -
    have "val < 2 ^ 96"
      using that unfolding s' by simp
    then have "unat (of_nat val :: 96 word) = val"
      by (simp add: unat_of_nat)
    with rec show ?thesis
      unfolding s' by (simp add: totalWithdrawn_def totalDeposited_def emit_def)
  qed
  have gc: "goalCounter s' = Suc (goalCounter s)"
    and fresh: "status (goals s' (goalCounter s)) = 0"
    and old: "\<And>h. h \<noteq> goalCounter s \<Longrightarrow> goals s' h = goals s h"
    and bps: "charityBasisPoints s' = charityBasisPoints s"
    and td: "totalDonated s' = totalDonated s"
    unfolding s' by (simp_all add: totalDonated_def)
  have d: "donations_sound s'" if snd: "donations_sound s"
    unfolding donations_sound_def
  proof (intro conjI allI impI)
    have new: "donatedFor s (goalCounter s) = 0"
      using snd by (simp add: donations_sound_def)
    show "charityBasisPoints s' \<le> 10000"
      using snd by (simp add: bps donations_sound_def)
    show "donatedFor s' h \<le> unat (stakeAmount (goals s' h))"
      if "h < goalCounter s'" "status (goals s' h) = 2" for h
    proof (cases "h = goalCounter s")
      case True
      with that(2) fresh show ?thesis by simp
    next
      case False
      with that snd show ?thesis
        by (simp add: don old gc donations_sound_def)
    qed
    show "donatedFor s' h = 0" if "\<not> (h < goalCounter s' \<and> status (goals s' h) = 2)" for h
    proof (cases "h = goalCounter s")
      case True
      with new show ?thesis by (simp add: don)
    next
      case False
      with that snd show ?thesis
        by (auto simp: don old gc donations_sound_def)
    qed
    show "status (goals s' h) = 0 \<or> status (goals s' h) = 1 \<or> status (goals s' h) = 2"
      if "h < goalCounter s'" for h
    proof (cases "h = goalCounter s")
      case True
      with fresh show ?thesis by simp
    next
      case False
      with that snd show ?thesis
        by (auto simp: old gc donations_sound_def)
    qed
    have "totalDonated s' = (\<Sum>h<goalCounter s. donatedFor s h)"
      using snd by (simp add: td donations_sound_def)
    also have "\<dots> = (\<Sum>h<goalCounter s'. donatedFor s' h)"
      using new by (simp add: don gc)
    finally show "totalDonated s' = (\<Sum>h<goalCounter s'. donatedFor s' h)" .
  qed
  show ?thesis
    unfolding accounted_def using l p don e d by blast
qed

lemma accounted_same_stakes:
  assumes "lifecycle s t" and "events t = events s" and "goalCounter t = goalCounter s"
    and "\<And>g. g < goalCounter s \<Longrightarrow> status (goals t g) = status (goals s g)"
    and "\<And>g. g < goalCounter s \<Longrightarrow> stakeAmount (goals t g) = stakeAmount (goals s g)"
    and "charityBasisPoints t = charityBasisPoints s \<or> charityBasisPoints t \<le> 10000"
  shows "accounted s t"
proof -
  have r: "recorded t = recorded s"
    by (rule recorded_cong) (simp_all add: assms)
  have d: "donations_sound t" if snd: "donations_sound s"
  proof -
    let ?t0 = "t\<lparr>charityBasisPoints := charityBasisPoints s\<rparr>"
    have "donations_sound ?t0"
      by (rule donations_sound_cong [OF snd]) (simp_all add: assms)
    moreover have "charityBasisPoints t \<le> 10000"
      using assms(6) snd by (auto simp: donations_sound_def)
    ultimately show ?thesis
      by (simp add: donations_sound_def totalDonated_def donatedFor_def)
  qed
  show ?thesis
    unfolding accounted_def
    using assms(1) r d totals_cong [OF assms(2)] by (simp add: assms(2))
qed

lemma simple_accounted:
  "submitProof sender now g uri s = Inr s' \<Longrightarrow> accounted s s'"
  "vote sender g support s = Inr s' \<Longrightarrow> accounted s s'"
  "setAIVerifier sender x s = Inr s' \<Longrightarrow> accounted s s'"
  "setMinimumStake sender n s = Inr s' \<Longrightarrow> accounted s s'"
  "setVotingPeriod sender n s = Inr s' \<Longrightarrow> accounted s s'"
  "setCharityAddress sender x s = Inr s' \<Longrightarrow> accounted s s'"
  "setCharityBasisPoints sender n s = Inr s' \<Longrightarrow> accounted s s'"
  "setBadgeContract sender x s = Inr s' \<Longrightarrow> accounted s s'"
  "transferOwnership sender x s = Inr s' \<Longrightarrow> accounted s s'"
  "renounceOwnership sender s = Inr s' \<Longrightarrow> accounted s s'"
proof -
  show "accounted s s'" if ok: "submitProof sender now g uri s = Inr s'"
  proof -
    let ?s1 = "s\<lparr>goals := (goals s)(g := (goals s g)\<lparr>proofURI := uri\<rparr>)\<rparr>"
    from ok have s': "s' = emit (ProofSubmitted g sender uri) ?s1"
      by (auto simp: submitProof_def split: if_splits)
    have "lifecycle s ?s1"
      by (simp add: lifecycle_def)
    then have "accounted s ?s1"
      by (rule accounted_same_stakes) simp_all
    then show ?thesis
      unfolding s' by (rule accounted_emit) simp
  qed
  show "accounted s s'" if ok: "vote sender g support s = Inr s'"
  proof -
    from ok obtain v where s': "s' = emit (VoteCast g sender support) (s\<lparr>votes := (votes s)(g := v)\<rparr>)"
      and st: "status (goals s g) = 0"
      by (auto simp: vote_def Let_def split: if_splits)
    have "lifecycle s (s\<lparr>votes := (votes s)(g := v)\<rparr>)"
      using st by (simp add: lifecycle_def)
    then have "accounted s (s\<lparr>votes := (votes s)(g := v)\<rparr>)"
      by (rule accounted_same_stakes) simp_all
    then show ?thesis
      unfolding s' by (rule accounted_emit) simp
  qed
  show "accounted s s'" if "setAIVerifier sender x s = Inr s'"
    using that by (auto simp: setAIVerifier_def split: if_splits
        intro!: accounted_cong [OF accounted_refl])
  show "accounted s s'" if "setMinimumStake sender n s = Inr s'"
    using that by (auto simp: setMinimumStake_def split: if_splits
        intro!: accounted_cong [OF accounted_refl])
  show "accounted s s'" if "setVotingPeriod sender n s = Inr s'"
    using that by (auto simp: setVotingPeriod_def split: if_splits
        intro!: accounted_cong [OF accounted_refl])
  show "accounted s s'" if "setCharityAddress sender x s = Inr s'"
    using that by (auto simp: setCharityAddress_def split: if_splits
        intro!: accounted_cong [OF accounted_refl])
  show "accounted s s'" if "setCharityBasisPoints sender n s = Inr s'"
    using that by (auto simp: setCharityBasisPoints_def lifecycle_refl split: if_splits
        intro!: accounted_same_stakes) (simp add: lifecycle_def)
  show "accounted s s'" if "setBadgeContract sender x s = Inr s'"
    using that by (auto simp: setBadgeContract_def split: if_splits
        intro!: accounted_cong [OF accounted_refl])
  show "accounted s s'" if "transferOwnership sender x s = Inr s'"
    using that by (auto simp: transferOwnership_def split: if_splits
        intro!: accounted_emit accounted_cong [OF accounted_refl])
  show "accounted s s'" if "renounceOwnership sender s = Inr s'"
    using that by (auto simp: renounceOwnership_def split: if_splits
        intro!: accounted_emit accounted_cong [OF accounted_refl])
qed

lemma dispatch_accounted:
  assumes nest: "\<And>t. accounted t (nest t)"
    and ok: "dispatch a k nest sender val now f s = Inr s'"
  shows "accounted s s'"
  using ok
  by (cases f)
    (auto intro: createGoal_accounted simple_accounted accounted_refl
      setAIScore_accounted [OF nest] verifyGoal_accounted [OF nest]
      resolveVote_accounted [OF nest] withdrawStake_accounted [OF nest])

lemma exec_accounted: "exec c s = Inr s' \<Longrightarrow> accounted s s'"
proof (rule exec_rel [where R = accounted])
  show "\<And>u. accounted u u" by (rule accounted_refl)
  show "\<And>u v w. accounted u v \<Longrightarrow> accounted v w \<Longrightarrow> accounted u w"
    by (rule accounted_trans)
  show "accounted u u'"
    if "\<And>t. accounted t (nest t)"
      and "dispatch a k nest sender val now f (transfer sender (self u) val u) = Inr u'"
    for nest a k sender val now f u u'
  proof -
    have "accounted u (transfer sender (self u) val u)"
      by (rule accounted_transfer) (rule accounted_refl)
    then show ?thesis
      by (rule accounted_trans) (rule dispatch_accounted [OF that])
  qed
qed

lemma run_accounted: "accounted s (run cs s)"
proof (induction cs arbitrary: s)
  case Nil
  show ?case by (simp add: run_def accounted_refl)
next
  case (Cons c cs)
  have "accounted s (transact c s)"
    by (cases "exec c s") (auto simp: transact_def settle_def accounted_refl exec_accounted)
  moreover have "accounted (transact c s) (run cs (transact c s))" by (rule Cons.IH)
  ultimately show ?case
    by (simp add: run_def accounted_trans)
qed

lemma constructor_accounts:
  "donations_sound (constructor this deployer badge bal)"
  "recorded (constructor this deployer badge bal) = 0"
  "totalWithdrawn (constructor this deployer badge bal) = 0"
  "totalDeposited (constructor this deployer badge bal) = 0"
  by (simp_all add: donations_sound_def recorded_def totalWithdrawn_def totalDeposited_def
      totalDonated_def donatedFor_def constructor_def)

lemma custody_split:
  assumes "donations_sound s"
  shows "staked_with 0 s + staked_with 1 s + totalDonated s + totalStranded s = recorded s"
proof -
  let ?n = "goalCounter s"
  let ?st = "\<lambda>g. status (goals s g)"
  let ?x = "\<lambda>g. unat (stakeAmount (goals s g))"
  have each: "(if ?st g = 0 then ?x g else 0) + (if ?st g = 1 then ?x g else 0) + donatedFor s g
        + (if ?st g = 2 then ?x g - donatedFor s g else 0) = ?x g" if "g < ?n" for g
  proof -
    from assms that consider "?st g = 0" | "?st g = 1" | "?st g = 2"
      by (auto simp: donations_sound_def)
    then show ?thesis
    proof cases
      case 1
      then have "donatedFor s g = 0"
        using assms by (simp add: donations_sound_def)
      with 1 show ?thesis by simp
    next
      case 2
      then have "donatedFor s g = 0"
        using assms by (simp add: donations_sound_def)
      with 2 show ?thesis by simp
    next
      case 3
      then have "donatedFor s g \<le> ?x g"
        using assms that by (simp add: donations_sound_def)
      with 3 show ?thesis by simp
    qed
  qed
  have "staked_with 0 s + staked_with 1 s + totalDonated s + totalStranded s =
      (\<Sum>g<?n. (if ?st g = 0 then ?x g else 0) + (if ?st g = 1 then ?x g else 0) + donatedFor s g
        + (if ?st g = 2 then ?x g - donatedFor s g else 0))"
    using assms by (simp add: staked_with_def totalStranded_def donations_sound_def sum.distrib)
  also have "\<dots> = (\<Sum>g<?n. ?x g)"
    by (rule sum.cong) (simp_all add: each)
  finally show ?thesis
    by (simp add: recorded_def)
qed

lemma demo_completed_run:
  "demo_completed = run [demo_create, demo_score] (constructor 100 1 9 (\<lambda>a. 1000000000000000000))"
  by (simp add: run_def demo_completed_def demo_created_def demo_start_def)

lemma demo_completed_events:
  "events demo_completed =
     [OwnershipTransferred 0 1,
      GoalCreated 0 2 100000000000000000 5000 0 ''Learn Solidity'',
      BadgeMintedForGoal 0 2 0, GoalResolved 0 1,
      AIScoredProof 0 90 ''AI verification complete'', GoalVerified 0 1 90 True]"
  by (simp add: demo_completed_eq demo_created_eq demo_start_def constructor_def)

lemma sum_below_one: "(\<Sum>g<(1 :: nat). f g) = f 0"
  by (simp add: lessThan_Suc)

lemma demo_completed_totals:
  "staked_with 0 demo_completed = 0"
  "staked_with 1 demo_completed = 100000000000000000"
  "totalWithdrawn demo_completed = 0"
  "totalDonated demo_completed = 0"
  "totalStranded demo_completed = 0"
  "totalDeposited demo_completed = 100000000000000000"
  "deposits_small demo_completed"
  by (simp_all add: staked_with_def totalWithdrawn_def totalDonated_def totalStranded_def
      totalDeposited_def deposits_small_def demo_completed_events demo_completed_fields
      sum_below_one)






section \<open>The claims\<close>

text \<open>
  C8 (oracle authorization). A caller that is not the registered verifier cannot score an
  existing goal: both \<^verbatim>\<open>setAIScore\<close> and \<^verbatim>\<open>verifyGoal\<close> revert with the
  authorization error, and the transaction leaves the whole state, so every field of
  every goal, as it was.
\<close>

theorem oracle_authorization:
  assumes "sender \<noteq> aiVerifier s" and "goalId < goalCounter s"
  shows "setAIScore a k nest sender now goalId score s = Inl OnlyAIVerifierCanCall \<and>
         verifyGoal a k nest sender goalId result s = Inl OnlyAIVerifierCanCall \<and>
         transact (Call sender val now (SetAIScore goalId score) a k nested) s = s \<and>
         transact (Call sender val now (VerifyGoal goalId result) a k nested) s = s"
  using assms
  by (simp add: setAIScore_def verifyGoal_def transact_def settle_def)

theorem oracle_authorization_witness:
  "(2::address) \<noteq> aiVerifier demo_created \<and> 0 < goalCounter demo_created \<and>
   setAIScore True (Minted 0) id 2 2000 0 100 demo_created = Inl OnlyAIVerifierCanCall \<and>
   verifyGoal True (Minted 0) id 2 0 True demo_created = Inl OnlyAIVerifierCanCall \<and>
   transact (Call 2 0 2000 (SetAIScore 0 100) True (Minted 0) []) demo_created = demo_created \<and>
   transact (Call 2 0 2000 (VerifyGoal 0 True) True (Minted 0) []) demo_created = demo_created \<and>
   aiScore (goals demo_created 0) = 0 \<and> status (goals demo_created 0) = 0"
proof -
  have h1: "(2::address) \<noteq> aiVerifier demo_created"
    and h2: "0 < goalCounter demo_created"
    by (simp_all add: demo_created_fields)
  show ?thesis
    using oracle_authorization [OF h1 h2, of True "Minted 0" id 2000 100 True 0 "[]"] h1 h2
    by (simp add: demo_created_fields)
qed

text \<open>
  C2 (at most one resolution). Once a goal is Completed or Failed it stays so through every
  later sequence of transactions, and every later call of \<^verbatim>\<open>setAIScore\<close>,
  \<^verbatim>\<open>verifyGoal\<close>, \<^verbatim>\<open>vote\<close> or \<^verbatim>\<open>resolveVote\<close> on it reverts, whoever calls
  and whatever the callee of an external call does in between.
\<close>

theorem at_most_one_resolution:
  assumes "goalId < goalCounter s"
    and "status (goals s goalId) = 1 \<or> status (goals s goalId) = 2"
    and "f = SetAIScore goalId score \<or> f = VerifyGoal goalId result \<or>
         f = CastVote goalId support \<or> f = ResolveVote goalId"
  shows "status (goals (run cs s) goalId) = status (goals s goalId) \<and>
         (\<exists>e. exec (Call sender val now f a k nested) (run cs s) = Inl e)"
proof -
  have st: "status (goals s goalId) \<noteq> 0"
    using assms(2) by auto
  have later: "status (goals (run cs s) goalId) = status (goals s goalId)"
    by (rule lifecycle_terminal(2) [OF run_lifecycle assms(1) st])
  let ?t = "transfer sender (self (run cs s)) val (run cs s)"
  have "status (goals ?t goalId) \<noteq> 0"
    using later st by simp
  from scoring_needs_active [OF this]
  have "\<exists>e. dispatch a k (reenter exec nested) sender val now f ?t = Inl e"
    using assms(3) by auto
  then have "\<exists>e. exec (Call sender val now f a k nested) (run cs s) = Inl e"
    by (rule exec_Inl_dispatch)
  with later show ?thesis by simp
qed

theorem at_most_one_resolution_witness:
  "0 < goalCounter demo_completed \<and>
   (status (goals demo_completed 0) = 1 \<or> status (goals demo_completed 0) = 2) \<and>
   status (goals (run [demo_create] demo_completed) 0) = status (goals demo_completed 0) \<and>
   (\<exists>e. exec (Call 1 0 3000 (VerifyGoal 0 False) True (Minted 0) []) (run [demo_create] demo_completed)
      = Inl e)"
proof -
  have h1: "0 < goalCounter demo_completed"
    and h2: "status (goals demo_completed 0) = 1 \<or> status (goals demo_completed 0) = 2"
    by (simp_all add: demo_completed_fields)
  have h3: "VerifyGoal 0 False = SetAIScore 0 0 \<or> VerifyGoal 0 False = VerifyGoal 0 False \<or>
         VerifyGoal 0 False = CastVote 0 False \<or> VerifyGoal 0 False = ResolveVote 0"
    by simp
  from at_most_one_resolution [OF h1 h2 h3, of "[demo_create]" 1 0 3000 True "Minted 0" "[]"] h1 h2
  show ?thesis by simp
qed

text \<open>
  C5 (threshold correctness), as amended. For an existing Active goal and a score of at
  most 100 sent by the verifier (the beneficiary share being at most 10000 basis points,
  as the constructor and the setter keep it): a score of 75 or more leaves the goal
  Completed, provided the owner's streak counter is not at its maximum \<open>2^64 - 1\<close> and,
  when a badge registry is set, its \<^verbatim>\<open>mintBadge\<close> either reverts or returns a token id
  (nothing is said of a registry address that holds no code or whose answer does not
  decode); a score below 40 leaves it Failed; a score from 40 to 74 leaves it Active,
  records the score and logs the opening of the vote with deadline \<open>now + votingPeriod\<close>,
  provided that sum does not exceed \<open>2^256 - 1\<close>.
\<close>

theorem setAIScore_thresholds:
  assumes "goalId < goalCounter s" and "status (goals s goalId) = 0" and "score \<le> 100"
    and "charityBasisPoints s \<le> 10000"
  shows "(75 \<le> score \<and> userStreaks s (user (goals s goalId)) \<noteq> - 1 \<and>
          (badgeMinter s \<noteq> 0 \<longrightarrow> k \<noteq> NoAnswer) \<longrightarrow>
           (\<exists>s'. exec (Call (aiVerifier s) 0 now (SetAIScore goalId score) a k nested) s = Inr s' \<and>
                 status (goals s' goalId) = 1)) \<and>
         (score < 40 \<longrightarrow>
           (\<exists>s'. exec (Call (aiVerifier s) 0 now (SetAIScore goalId score) a k nested) s = Inr s' \<and>
                 status (goals s' goalId) = 2)) \<and>
         (40 \<le> score \<and> score < 75 \<and> now + votingPeriod s \<le> uint256_max \<longrightarrow>
           (\<exists>s'. exec (Call (aiVerifier s) 0 now (SetAIScore goalId score) a k nested) s = Inr s' \<and>
                 status (goals s' goalId) = 0 \<and> aiScore (goals s' goalId) = score \<and>
                 events s' = events s @ [VoteStarted goalId (now + votingPeriod s),
                    AIScoredProof goalId score ''AI verification complete'',
                    GoalVerified goalId (aiVerifier s) score False]))"
proof (intro conjI impI)
  let ?s1 = "s\<lparr>goals := (goals s)(goalId := (goals s goalId)\<lparr>aiScore := score\<rparr>)\<rparr>"
  let ?call = "Call (aiVerifier s) 0 now (SetAIScore goalId score) a k nested"
  {
    assume hi: "75 \<le> score \<and> userStreaks s (user (goals s goalId)) \<noteq> - 1 \<and>
      (badgeMinter s \<noteq> 0 \<longrightarrow> k \<noteq> NoAnswer)"
    then obtain s2 where s2:
      "onGoalCompleted k (reenter exec nested) goalId (set_status goalId 1 ?s1) = Inr s2"
      using onGoalCompleted_total [of "set_status goalId 1 ?s1" goalId k "reenter exec nested"]
      by (auto simp: set_status_def)
    have "status (goals s2 goalId) = 1"
      using onGoalCompleted_keeps_status [OF s2] assms(1) by simp
    then show "\<exists>s'. exec ?call s = Inr s' \<and> status (goals s' goalId) = 1"
      using assms hi s2 by (simp add: setAIScore_def Let_def)
  }
  {
    assume lo: "score < 40"
    then have not_hi: "\<not> 75 \<le> score"
      by (simp add: word_less_nat_alt word_le_nat_alt)
    obtain s2 where s2:
      "onGoalFailed a (reenter exec nested) goalId (set_status goalId 2 ?s1) = Inr s2"
      using onGoalFailed_total [of "set_status goalId 2 ?s1" a "reenter exec nested" goalId]
        assms(4)
      by auto
    have "status (goals s2 goalId) = 2"
      using onGoalFailed_keeps_status [OF s2] assms(1) by simp
    then show "\<exists>s'. exec ?call s = Inr s' \<and> status (goals s' goalId) = 2"
      using assms lo not_hi s2 by (simp add: setAIScore_def Let_def)
  }
  {
    assume mid: "40 \<le> score \<and> score < 75 \<and> now + votingPeriod s \<le> uint256_max"
    then have "\<not> 75 \<le> score" "\<not> score < 40"
      by auto
    then show "\<exists>s'. exec ?call s = Inr s' \<and> status (goals s' goalId) = 0 \<and>
        aiScore (goals s' goalId) = score \<and>
        events s' = events s @ [VoteStarted goalId (now + votingPeriod s),
           AIScoredProof goalId score ''AI verification complete'',
           GoalVerified goalId (aiVerifier s) score False]"
      using assms mid by (simp add: setAIScore_def Let_def)
  }
qed

theorem setAIScore_thresholds_witness:
  "0 < goalCounter demo_created \<and> status (goals demo_created 0) = 0 \<and> (90 :: 64 word) \<le> 100 \<and>
   charityBasisPoints demo_created \<le> 10000 \<and> (75 :: 64 word) \<le> 90 \<and>
   userStreaks demo_created (user (goals demo_created 0)) \<noteq> - 1 \<and>
   badgeMinter demo_created = 9 \<and> Minted 0 \<noteq> NoAnswer \<and>
   (\<exists>s'. exec (Call (aiVerifier demo_created) 0 2000 (SetAIScore 0 90) True (Minted 0) [])
            demo_created = Inr s' \<and> status (goals s' 0) = 1)"
proof -
  have h: "0 < goalCounter demo_created" "status (goals demo_created 0) = 0"
    "(90 :: 64 word) \<le> 100" "charityBasisPoints demo_created \<le> 10000"
    by (simp_all add: demo_created_fields)
  have g: "(75 :: 64 word) \<le> 90 \<and> userStreaks demo_created (user (goals demo_created 0)) \<noteq> - 1 \<and>
      (badgeMinter demo_created \<noteq> 0 \<longrightarrow> Minted 0 \<noteq> NoAnswer)"
    by (simp add: demo_created_fields)
  have r: "badgeMinter demo_created = 9 \<and> Minted 0 \<noteq> NoAnswer"
    by (simp add: demo_created_fields)
  from setAIScore_thresholds
    [OF h, where now = 2000 and a = True and k = "Minted 0" and nested = "[]"] g h r
  show ?thesis
    by blast
qed

theorem setAIScore_midrange_counterexample:
  "0 < goalCounter demo_long_vote \<and> status (goals demo_long_vote 0) = 0 \<and>
   (50 :: 64 word) \<le> 100 \<and> (40 :: 64 word) \<le> 50 \<and> (50 :: 64 word) < 75 \<and>
   exec (Call (aiVerifier demo_long_vote) 0 2000 (SetAIScore 0 50) True (Minted 0) []) demo_long_vote
     = Inl ArithmeticPanic"
  by (simp add: demo_long_vote_def transact_def settle_def setVotingPeriod_def setAIScore_def
      reenter_def demo_created_fields uint256_max_def Let_def)

text \<open>
  C7 (vote resolution rule). The rule itself is as the claim has it wherever the badge
  registry answers: \<open>resolveVote_outcome\<close>, \<open>resolveVote_passed_alone\<close> and
  \<open>resolveVote_failed_alone\<close> above give the outcome \<open>yesVotes > noVotes\<close>, the status, the
  streak, the badge event and the payout. The code departs from the claim where the
  registry is an address that holds no code, which the constructor and
  \<^verbatim>\<open>setBadgeContract\<close> both accept. In the deployment below the registry is address 9,
  and goal 0 is Active with two votes for and one against. A \<^verbatim>\<open>resolveVote\<close> on it then
  reverts, as \<^verbatim>\<open>verifyGoal\<close> with a positive verdict does: the vote stays unresolved and
  the goal Active. A registry that reverts is caught, as the source intends for every
  failure of the mint: the goal is then Completed and the vote resolved as passed.
\<close>

theorem resolveVote_without_registry_code:
  "badgeMinter demo_voted = 9 \<and> status (goals demo_voted 0) = 0 \<and>
   \<not> resolved (votes demo_voted 0) \<and>
   yesVotes (votes demo_voted 0) = 2 \<and> noVotes (votes demo_voted 0) = 1 \<and>
   exec (Call 7 0 9000 (ResolveVote 0) True NoAnswer []) demo_voted = Inl BadgeCallFailed \<and>
   transact (Call 7 0 9000 (ResolveVote 0) True NoAnswer []) demo_voted = demo_voted \<and>
   exec (Call 1 0 9000 (VerifyGoal 0 True) True NoAnswer []) demo_voted = Inl BadgeCallFailed \<and>
   status (goals (transact (Call 7 0 9000 (ResolveVote 0) True MintReverted []) demo_voted) 0) = 1 \<and>
   resolved (votes (transact (Call 7 0 9000 (ResolveVote 0) True MintReverted []) demo_voted) 0) \<and>
   passed (votes (transact (Call 7 0 9000 (ResolveVote 0) True MintReverted []) demo_voted) 0)"
  by (simp add: transact_def settle_def resolveVote_def verifyGoal_def onGoalCompleted_def
      call_mintBadge_def set_status_def emit_def demo_voted_fields Let_def)



text \<open>
  C3 (a second withdrawal), as amended. After a first \<^verbatim>\<open>withdrawStake\<close> has succeeded,
  the recorded stake of the goal is zero and stays zero through every later sequence of
  transactions. A second \<^verbatim>\<open>withdrawStake\<close> on the goal by its owner is not rejected:
  it sends zero wei. It succeeds, logging a withdrawal of amount 0, when the owner accepts
  the call, and reverts otherwise; the withdrawal itself changes no balance and leaves
  \<open>totalStaked\<close> as it is (what remains is what the owner's own reentrant calls do).
\<close>

theorem second_withdrawal_moves_nothing:
  assumes "exec (Call u v t1 (WithdrawStake g) a1 k1 ns1) s = Inr s1"
  shows "stakeAmount (goals (run cs s1) g) = 0 \<and>
         exec (Call u 0 t2 (WithdrawStake g) a2 k2 ns2) (run cs s1) =
           (if a2 then Inr ((emit (StakeWithdrawn u 0)
                              (reenter exec ns2 ((run cs s1)\<lparr>locked := True\<rparr>)))\<lparr>locked := False\<rparr>)
            else Inl WithdrawalFailed) \<and>
         exec (Call u 0 t2 (WithdrawStake g) a2 k2 []) (run cs s1) =
           (if a2 then Inr (emit (StakeWithdrawn u 0) (run cs s1)) else Inl WithdrawalFailed) \<and>
         balances (transact (Call u 0 t2 (WithdrawStake g) a2 k2 []) (run cs s1))
           = balances (run cs s1) \<and>
         totalStaked (transact (Call u 0 t2 (WithdrawStake g) a2 k2 []) (run cs s1))
           = totalStaked (run cs s1)"
proof -
  let ?s2 = "run cs s1"
  from assms have w: "withdrawStake a1 (reenter exec ns1) u g (transfer u (self s) v s) = Inr s1"
    by (auto split: if_splits)
  note first = withdrawStake_after [OF w]
  have later: "g < goalCounter ?s2" "user (goals ?s2 g) = u" "status (goals ?s2 g) = 1"
    "stakeAmount (goals ?s2 g) = 0"
    using lifecycle_withdrawn [OF run_lifecycle first(1,3,4), of cs] first(2) by simp_all
  have unlocked: "\<not> locked ?s2"
    using first(5) by (simp add: run_locked)
  have general: "exec (Call u 0 t2 (WithdrawStake g) a2 k2 ns) ?s2 =
      (if a2 then Inr ((emit (StakeWithdrawn u 0)
                         (reenter exec ns (?s2\<lparr>locked := True\<rparr>)))\<lparr>locked := False\<rparr>)
       else Inl WithdrawalFailed)" for ns
    using withdrawStake_of_nothing [OF later(1) unlocked later(2,3,4)] by simp
  have alone: "exec (Call u 0 t2 (WithdrawStake g) a2 k2 []) ?s2 =
      (if a2 then Inr (emit (StakeWithdrawn u 0) ?s2) else Inl WithdrawalFailed)"
    using unlocked general [of "[]"] by (simp add: emit_unlocked del: exec.simps)
  show ?thesis
    using later(4) general [of ns2] alone
    by (simp add: transact_def settle_def del: exec.simps)
qed

theorem second_withdrawal_moves_nothing_witness:
  "exec (Call 2 0 3000 (WithdrawStake 0) True (Minted 0) []) demo_completed = Inr demo_withdrawn \<and>
   stakeAmount (goals (run [demo_create] demo_withdrawn) 0) = 0 \<and>
   exec (Call 2 0 3001 (WithdrawStake 0) True (Minted 0) []) (run [demo_create] demo_withdrawn) =
     Inr (emit (StakeWithdrawn 2 0) (run [demo_create] demo_withdrawn)) \<and>
   balances (transact (Call 2 0 3001 (WithdrawStake 0) True (Minted 0) []) (run [demo_create] demo_withdrawn))
     = balances (run [demo_create] demo_withdrawn)"
proof -
  have h: "exec (Call 2 0 3000 (WithdrawStake 0) True (Minted 0) []) demo_completed = Inr demo_withdrawn"
    using demo_withdrawn_exec by (simp add: demo_withdraw_def)
  from second_withdrawal_moves_nothing [OF h, of "[demo_create]" 3001 True "Minted 0" "[]", unfolded if_True] h
  show ?thesis by fast
qed

theorem second_withdrawal_counterexample:
  "exec (Call 2 0 3000 (WithdrawStake 0) True (Minted 0) []) demo_completed = Inr demo_withdrawn \<and>
   exec (Call 2 0 3001 (WithdrawStake 0) True (Minted 0) []) demo_withdrawn =
     Inr (emit (StakeWithdrawn 2 0) demo_withdrawn)"
proof -
  have "exec (Call 2 0 3001 (WithdrawStake 0) True (Minted 0) []) demo_withdrawn =
     Inr (emit (StakeWithdrawn 2 0) demo_withdrawn)"
    using withdrawStake_of_nothing [of 0 demo_withdrawn 2 True "reenter exec []"]
    by (simp add: demo_withdrawn_fields emit_unlocked)
  with demo_withdrawn_exec show ?thesis
    by (simp add: demo_withdraw_def)
qed

text \<open>
  C6 (withdrawal ordering and atomicity). For a \<^verbatim>\<open>withdrawStake\<close> that passes its checks
  (existing Completed goal, called by its owner at top level, \<open>totalStaked\<close> covering the
  stake): the recipient of the transfer only ever sees the ledger with the lock held, the
  goal's stake already zero and \<open>totalStaked\<close> already reduced, so what the recipient
  would do in any other state is irrelevant to the result; when the transfer fails (the
  recipient refuses or the contract's balance is short) the call reverts and the state is
  as before; and when the recipient re-enters \<^verbatim>\<open>withdrawStake\<close>, however often and for
  whatever goal, every such attempt reverts and the result is that of a single payout.
\<close>

theorem withdrawStake_atomic:
  assumes "goalId < goalCounter s" and "\<not> locked s" and "user (goals s goalId) = u"
    and "status (goals s goalId) = 1"
    and "unat (stakeAmount (goals s goalId)) \<le> totalStaked s"
  shows "((\<forall>t. locked t \<and> stakeAmount (goals t goalId) = 0 \<and>
               totalStaked t = totalStaked s - unat (stakeAmount (goals s goalId))
               \<longrightarrow> nest t = nest' t) \<longrightarrow>
          withdrawStake a nest u goalId s = withdrawStake a nest' u goalId s) \<and>
         (\<not> a \<or> balances s (self s) < unat (stakeAmount (goals s goalId)) \<longrightarrow>
          exec (Call u 0 now (WithdrawStake goalId) a k nested) s = Inl WithdrawalFailed \<and>
          transact (Call u 0 now (WithdrawStake goalId) a k nested) s = s) \<and>
         (a \<and> unat (stakeAmount (goals s goalId)) \<le> balances s (self s) \<and>
          (\<forall>c\<in>set nested. \<exists>sender val t g b j ns.
              c = Call sender val t (WithdrawStake g) b j ns) \<longrightarrow>
          exec (Call u 0 now (WithdrawStake goalId) a k nested) s =
            Inr (emit (StakeWithdrawn u (unat (stakeAmount (goals s goalId))))
                  (transfer (self s) u (unat (stakeAmount (goals s goalId)))
                    (s\<lparr>goals := (goals s)(goalId := (goals s goalId)\<lparr>stakeAmount := 0\<rparr>),
                       totalStaked := totalStaked s - unat (stakeAmount (goals s goalId))\<rparr>))))"
proof (intro conjI impI)
  let ?amt = "unat (stakeAmount (goals s goalId))"
  let ?b = "s\<lparr>locked := True,
      goals := (goals s)(goalId := (goals s goalId)\<lparr>stakeAmount := 0\<rparr>),
      totalStaked := totalStaked s - ?amt\<rparr>"
  let ?call = "Call u 0 now (WithdrawStake goalId) a k nested"
  {
    assume "\<forall>t. locked t \<and> stakeAmount (goals t goalId) = 0 \<and>
               totalStaked t = totalStaked s - ?amt \<longrightarrow> nest t = nest' t"
    then show "withdrawStake a nest u goalId s = withdrawStake a nest' u goalId s"
      by (rule withdrawStake_callee_view)
  }
  {
    assume fails: "\<not> a \<or> balances s (self s) < ?amt"
    then show reverts: "exec ?call s = Inl WithdrawalFailed"
      using assms by (auto simp: withdrawStake_def call_value_def Let_def)
    then show "transact ?call s = s"
      by (simp add: transact_def settle_def del: exec.simps)
  }
  {
    assume ok: "a \<and> ?amt \<le> balances s (self s) \<and>
      (\<forall>c\<in>set nested. \<exists>sender val t g b j ns. c = Call sender val t (WithdrawStake g) b j ns)"
    have "reenter exec nested (transfer (self s) u ?amt ?b) = transfer (self s) u ?amt ?b"
      by (rule reenter_withdrawals_locked) (use ok in simp_all)
    then show "exec ?call s =
        Inr (emit (StakeWithdrawn u ?amt)
              (transfer (self s) u ?amt
                (s\<lparr>goals := (goals s)(goalId := (goals s goalId)\<lparr>stakeAmount := 0\<rparr>),
                   totalStaked := totalStaked s - ?amt\<rparr>)))"
      using assms ok
      by (simp add: withdrawStake_def call_value_def withdraw_unlock Let_def not_less)
  }
qed

theorem withdrawStake_atomic_witness:
  "0 < goalCounter demo_completed \<and> \<not> locked demo_completed \<and>
   user (goals demo_completed 0) = 2 \<and> status (goals demo_completed 0) = 1 \<and>
   unat (stakeAmount (goals demo_completed 0)) \<le> totalStaked demo_completed \<and>
   exec (Call 2 0 3000 (WithdrawStake 0) False (Minted 0) []) demo_completed = Inl WithdrawalFailed \<and>
   transact (Call 2 0 3000 (WithdrawStake 0) False (Minted 0) []) demo_completed = demo_completed \<and>
   exec (Call 2 0 3000 (WithdrawStake 0) True (Minted 0) [Call 2 0 3000 (WithdrawStake 0) True (Minted 0) []])
     demo_completed =
     Inr (emit (StakeWithdrawn 2 100000000000000000)
           (transfer 100 2 100000000000000000
             (demo_completed\<lparr>goals := (goals demo_completed)
                  (0 := (goals demo_completed 0)\<lparr>stakeAmount := 0\<rparr>),
                totalStaked := 0\<rparr>)))"
proof -
  have h: "0 < goalCounter demo_completed" "\<not> locked demo_completed"
    "user (goals demo_completed 0) = 2" "status (goals demo_completed 0) = 1"
    "unat (stakeAmount (goals demo_completed 0)) \<le> totalStaked demo_completed"
    by (simp_all add: demo_completed_fields)
  have refused: "\<not> False \<or>
      balances demo_completed (self demo_completed) < unat (stakeAmount (goals demo_completed 0))"
    by simp
  have reentered: "True \<and>
      unat (stakeAmount (goals demo_completed 0)) \<le> balances demo_completed (self demo_completed) \<and>
      (\<forall>c\<in>set [Call 2 0 3000 (WithdrawStake 0) True (Minted 0) []]. \<exists>sender val t g b j ns.
          c = Call sender val t (WithdrawStake g) b j ns)"
    by (auto simp: demo_completed_fields)
  from withdrawStake_atomic [OF h, of id id False 3000 "Minted 0" "[]"] refused
  have r1: "exec (Call 2 0 3000 (WithdrawStake 0) False (Minted 0) []) demo_completed = Inl WithdrawalFailed \<and>
    transact (Call 2 0 3000 (WithdrawStake 0) False (Minted 0) []) demo_completed = demo_completed"
    by (simp del: exec.simps)
  from withdrawStake_atomic [OF h, of id id True 3000 "Minted 0" "[Call 2 0 3000 (WithdrawStake 0) True (Minted 0) []]"]
    reentered
  have r2: "exec (Call 2 0 3000 (WithdrawStake 0) True (Minted 0) [Call 2 0 3000 (WithdrawStake 0) True (Minted 0) []])
     demo_completed =
     Inr (emit (StakeWithdrawn 2 (unat (stakeAmount (goals demo_completed 0))))
           (transfer (self demo_completed) 2 (unat (stakeAmount (goals demo_completed 0)))
             (demo_completed\<lparr>goals := (goals demo_completed)
                  (0 := (goals demo_completed 0)\<lparr>stakeAmount := 0\<rparr>),
                totalStaked := totalStaked demo_completed
                   - unat (stakeAmount (goals demo_completed 0))\<rparr>)))"
    by (simp del: exec.simps)
  show ?thesis
    using h r1 r2 by (simp add: demo_completed_fields del: exec.simps)
qed

text \<open>
  C9 (badge soulbinding). The hook refuses every change of ownership from a holder to
  another holder. In every state the registry reaches from its constructor through calls
  with real senders: \<^verbatim>\<open>transferFrom\<close> and \<^verbatim>\<open>safeTransferFrom\<close> revert whatever their
  arguments; a successful call of any function other than \<^verbatim>\<open>mintBadge\<close> and \<^verbatim>\<open>burn\<close>
  leaves every token's owner and every holder's balance as they were; and once
  \<^verbatim>\<open>burn\<close> has succeeded on a token, its id has no owner after any later sequence of
  calls, since \<^verbatim>\<open>mintBadge\<close> only mints the id of the counter, which is above it.
\<close>

theorem badge_soulbound:
  assumes "s = nft_run cs0 (badge_constructor deployer stake)"
    and "\<forall>c\<in>set cs0. real_sender c" and "sender \<noteq> 0"
    and "\<forall>c\<in>set nested. real_sender c" and "\<forall>c\<in>set cs. real_sender c"
  shows "(owners s tokenId \<noteq> 0 \<and> dst \<noteq> 0 \<longrightarrow>
            update dst tokenId auth s = Inl SoulboundNoTransfer) \<and>
         (\<exists>e. nft_exec (NftCall sender now (TransferFrom src dst tokenId) a nested) s = Inl e) \<and>
         (\<exists>e. nft_exec (NftCall sender now (SafeTransferFrom src dst tokenId) a nested) s = Inl e) \<and>
         (\<forall>s'. nft_exec (NftCall sender now f a nested) s = Inr s' \<and>
               (\<forall>usr g c k. f \<noteq> MintBadge usr g c k) \<and> (\<forall>i. f \<noteq> Burn i) \<longrightarrow>
               owners s' = owners s \<and> holdings s' = holdings s) \<and>
         (\<forall>s1. nft_exec (NftCall sender now (Burn tokenId) a nested) s = Inr s1 \<longrightarrow>
               owners s1 tokenId = 0 \<and> tokenId < tokenCounter s1 \<and>
               owners (nft_run cs s1) tokenId = 0)"
proof (intro conjI allI impI)
  have cl: "clean s"
    unfolding assms(1)
    using nft_run_clean [OF assms(2) badge_constructor_clean] by simp
  {
    assume "owners s tokenId \<noteq> 0 \<and> dst \<noteq> 0"
    then show "update dst tokenId auth s = Inl SoulboundNoTransfer"
      by (simp add: update_soulbound)
  }
  show "\<exists>e. nft_exec (NftCall sender now (TransferFrom src dst tokenId) a nested) s = Inl e"
    using transferFrom_clean [OF cl assms(3)] by simp
  show "\<exists>e. nft_exec (NftCall sender now (SafeTransferFrom src dst tokenId) a nested) s = Inl e"
    using transferFrom_clean [OF cl assms(3), of src dst tokenId]
    by (auto simp: safeTransferFrom_def)
  {
    fix s'
    assume other: "nft_exec (NftCall sender now f a nested) s = Inr s' \<and>
               (\<forall>usr g c k. f \<noteq> MintBadge usr g c k) \<and> (\<forall>i. f \<noteq> Burn i)"
    have "owners s' = owners s \<and> holdings s' = holdings s"
    proof (cases f)
      case (TransferFrom x y i)
      with other transferFrom_clean [OF cl assms(3), of x y i] show ?thesis by auto
    next
      case (SafeTransferFrom x y i)
      with other transferFrom_clean [OF cl assms(3), of x y i] show ?thesis
        by (auto simp: safeTransferFrom_def)
    qed (use other in \<open>auto simp: approve_def setApprovalForAll_def setBaseURI_def
          setStakeContract_def badge_transferOwnership_def badge_renounceOwnership_def
          split: if_splits\<close>)
    then show "owners s' = owners s" and "holdings s' = holdings s"
      by simp_all
  }
  {
    fix s1
    assume b: "nft_exec (NftCall sender now (Burn tokenId) a nested) s = Inr s1"
    then have "burn sender tokenId s = Inr s1"
      by simp
    from burn_clean [OF this cl]
    have s1: "clean s1" "stays_burned s s1" "owners s1 tokenId = 0" "tokenId < tokenCounter s"
      by simp_all
    then show "owners s1 tokenId = 0" and below: "tokenId < tokenCounter s1"
      by (auto simp: stays_burned_def)
    from nft_run_clean [OF assms(5) s1(1)] s1(3) below
    show "owners (nft_run cs s1) tokenId = 0"
      by (auto simp: stays_burned_def)
  }
qed

theorem badge_soulbound_witness:
  "demo_badges = nft_run [NftCall 100 2000 (MintBadge 2 0 0 1) True []] (badge_constructor 1 100) \<and>
   real_sender (NftCall 100 2000 (MintBadge 2 0 0 1) True []) \<and> (2 :: address) \<noteq> 0 \<and>
   real_sender (NftCall 100 4000 (MintBadge 2 1 0 1) True []) \<and>
   owners demo_badges 0 \<noteq> 0 \<and> (3 :: address) \<noteq> 0 \<and>
   update 3 0 2 demo_badges = Inl SoulboundNoTransfer \<and>
   (\<exists>e. nft_exec (NftCall 2 3000 (TransferFrom 2 3 0) True []) demo_badges = Inl e) \<and>
   nft_exec (NftCall 2 3000 (Burn 0) True []) demo_badges = Inr demo_burned \<and>
   owners demo_burned 0 = 0 \<and>
   owners (nft_run [NftCall 100 4000 (MintBadge 2 1 0 1) True []] demo_burned) 0 = 0"
proof -
  have h: "demo_badges = nft_run [NftCall 100 2000 (MintBadge 2 0 0 1) True []] (badge_constructor 1 100)"
    "\<forall>c\<in>set [NftCall 100 2000 (MintBadge 2 0 0 1) True []]. real_sender c" "(2 :: address) \<noteq> 0"
    "\<forall>c\<in>set ([] :: nft_call list). real_sender c"
    "\<forall>c\<in>set [NftCall 100 4000 (MintBadge 2 1 0 1) True []]. real_sender c"
    by (simp_all add: demo_badges_def)
  have own: "owners demo_badges 0 \<noteq> 0 \<and> (3 :: address) \<noteq> 0"
    by (simp add: demo_badges_fields)
  note r = badge_soulbound [OF h, of 0 3 2 3000 2 True "Approve 3 0"]
  from r own have r1: "update 3 0 2 demo_badges = Inl SoulboundNoTransfer"
    by blast
  from r have r2: "\<exists>e. nft_exec (NftCall 2 3000 (TransferFrom 2 3 0) True []) demo_badges = Inl e"
    by blast
  from r demo_burned_exec
  have r3: "owners demo_burned 0 = 0 \<and>
      owners (nft_run [NftCall 100 4000 (MintBadge 2 1 0 1) True []] demo_burned) 0 = 0"
    by blast
  from h own r1 r2 r3 demo_burned_exec show ?thesis
    by simp
qed

text \<open>
  C1 (value conservation), as amended. In every state reached from the constructor by any
  sequence of transactions, with whatever reentrant calls, in which every deposit was
  below \<open>2^96\<close> wei: the stakes recorded on Active goals, plus those recorded on Completed
  goals (completed and not yet withdrawn), plus the total withdrawn, plus the total
  donated, plus what is stranded on Failed goals, equal the total deposited.
\<close>

theorem value_conservation:
  assumes "s = run cs (constructor this deployer badge bal)" and "deposits_small s"
  shows "staked_with 0 s + staked_with 1 s + totalWithdrawn s + totalDonated s + totalStranded s
           = totalDeposited s"
proof -
  let ?init = "constructor this deployer badge bal"
  have acc: "accounted ?init s"
    unfolding assms(1) by (rule run_accounted)
  have sound: "donations_sound s"
    using acc constructor_accounts(1) by (simp add: accounted_def)
  have "recorded s + totalWithdrawn s + totalDeposited ?init =
      recorded ?init + totalWithdrawn ?init + totalDeposited s"
    using acc assms(2) by (simp add: accounted_def)
  then have "recorded s + totalWithdrawn s = totalDeposited s"
    by (simp add: constructor_accounts)
  with custody_split [OF sound] show ?thesis
    by simp
qed

theorem value_conservation_witness:
  "demo_completed = run [demo_create, demo_score] (constructor 100 1 9 (\<lambda>a. 1000000000000000000)) \<and>
   deposits_small demo_completed \<and>
   staked_with 0 demo_completed + staked_with 1 demo_completed + totalWithdrawn demo_completed
     + totalDonated demo_completed + totalStranded demo_completed = totalDeposited demo_completed \<and>
   totalDeposited demo_completed = 100000000000000000"
proof -
  have h: "demo_completed = run [demo_create, demo_score]
      (constructor 100 1 9 (\<lambda>a. 1000000000000000000))" "deposits_small demo_completed"
    by (rule demo_completed_run) (rule demo_completed_totals)
  from value_conservation [OF h] h demo_completed_totals(6) show ?thesis
    by simp
qed

theorem value_conservation_counterexample:
  "demo_completed = run [demo_create, demo_score] (constructor 100 1 9 (\<lambda>a. 1000000000000000000)) \<and>
   staked_with 0 demo_completed + totalWithdrawn demo_completed + totalDonated demo_completed
     + totalStranded demo_completed = 0 \<and>
   totalDeposited demo_completed = 100000000000000000"
  using demo_completed_run by (simp add: demo_completed_totals)




end
